theory Spec2Isabelle
  imports Complex_Main "HOL-Library.Log_Nat"
begin

section \<open>Python floats\<close>

text \<open>
  Prices, the running subtotal and the total are Python floats (IEEE 754 binary64).
  A float is modelled by its exact value: a finite float is the rational it denotes,
  and the three special values are constructors of their own. The sign of zero is
  not modelled (Python's \<open>==\<close> does not see it either).
\<close>

datatype pyfloat = Finite rat | PInf | NInf | NaN

datatype py_error = OverflowError | ValidationError | OtherError string

definition pow2 :: "int \<Rightarrow> rat" where
  "pow2 e = (if 0 \<le> e then 2 ^ nat e else 1 / 2 ^ nat (- e))"

text \<open>Rounding a rational to the nearest integer, a tie going to the even neighbour.\<close>

definition round_half_even :: "rat \<Rightarrow> int" where
  "round_half_even r =
     (let f = \<lfloor>r\<rfloor>; d = r - of_int f
      in if d < 1 / 2 then f else if 1 / 2 < d then f + 1 else if even f then f else f + 1)"

text \<open>\<open>flog2 x\<close> is the binary exponent of a positive \<open>x\<close>: \<open>2 ^ flog2 x \<le> x < 2 ^ (flog2 x + 1)\<close>.\<close>

definition flog2 :: "rat \<Rightarrow> int" where
  "flog2 x = (let (p, q) = quotient_of x; k = bitlen p - bitlen q
              in if pow2 k \<le> x then k else k - 1)"

text \<open>
  The exponent of the unit in the last place of the binade of \<open>x\<close>: 53 significant
  bits, and the subnormal spacing \<open>2 ^ - 1074\<close> at the bottom of the range.
\<close>

definition ulp_exp :: "rat \<Rightarrow> int" where
  "ulp_exp x = max (flog2 \<bar>x\<bar> - 52) (- 1074)"

text \<open>Round to nearest binary64, ties to even, before the overflow check.\<close>

definition rnd :: "rat \<Rightarrow> rat" where
  "rnd x = (if x = 0 then 0
            else of_int (round_half_even (x / pow2 (ulp_exp x))) * pow2 (ulp_exp x))"

text \<open>The result of an arithmetic operation: the exact result rounded, infinite on overflow.\<close>

definition fin_round :: "rat \<Rightarrow> pyfloat" where
  "fin_round x = (let r = rnd x
                  in if pow2 1024 \<le> \<bar>r\<bar> then (if 0 < r then PInf else NInf) else Finite r)"

text \<open>Python's \<open>a + b\<close> on floats.\<close>

fun fadd :: "pyfloat \<Rightarrow> pyfloat \<Rightarrow> pyfloat" where
  "fadd (Finite a) (Finite b) = fin_round (a + b)"
| "fadd NaN _ = NaN"
| "fadd _ NaN = NaN"
| "fadd PInf NInf = NaN"
| "fadd NInf PInf = NaN"
| "fadd PInf _ = PInf"
| "fadd _ PInf = PInf"
| "fadd NInf _ = NInf"
| "fadd _ NInf = NInf"

text \<open>Python's \<open>a * b\<close> on floats.\<close>

fun fmul :: "pyfloat \<Rightarrow> pyfloat \<Rightarrow> pyfloat" where
  "fmul (Finite a) (Finite b) = fin_round (a * b)"
| "fmul NaN _ = NaN"
| "fmul _ NaN = NaN"
| "fmul (Finite a) PInf = (if a = 0 then NaN else if 0 < a then PInf else NInf)"
| "fmul (Finite a) NInf = (if a = 0 then NaN else if 0 < a then NInf else PInf)"
| "fmul PInf (Finite b) = (if b = 0 then NaN else if 0 < b then PInf else NInf)"
| "fmul NInf (Finite b) = (if b = 0 then NaN else if 0 < b then NInf else PInf)"
| "fmul PInf PInf = PInf"
| "fmul NInf NInf = PInf"
| "fmul PInf NInf = NInf"
| "fmul NInf PInf = NInf"

text \<open>Python's \<open>a <= b\<close> on floats: false as soon as one side is NaN.\<close>

fun fle :: "pyfloat \<Rightarrow> pyfloat \<Rightarrow> bool" where
  "fle (Finite a) (Finite b) = (a \<le> b)"
| "fle NaN _ = False"
| "fle _ NaN = False"
| "fle NInf _ = True"
| "fle _ PInf = True"
| "fle PInf _ = False"
| "fle _ NInf = False"

text \<open>
  Python's \<open>round(x, 2)\<close> on a float: infinities and NaN round to themselves; a finite
  value is rounded to the nearest multiple of \<open>1/100\<close> (ties to even, on the exact
  value of the float), that decimal is converted back to the nearest float, and
  \<open>OverflowError\<close> is raised when the conversion overflows.
\<close>

fun py_round2 :: "pyfloat \<Rightarrow> py_error + pyfloat" where
  "py_round2 (Finite x) =
     (let r = rnd (of_int (round_half_even (100 * x)) / 100)
      in if pow2 1024 \<le> \<bar>r\<bar> then Inl OverflowError else Inr (Finite r))"
| "py_round2 v = Inr v"

text \<open>
  The values a Python float variable can hold: the special values, and the rationals
  that are binary64 numbers (rounding leaves them as they are, and they are in range).
\<close>

fun is_double :: "pyfloat \<Rightarrow> bool" where
  "is_double (Finite x) = (rnd x = x \<and> \<bar>x\<bar> < pow2 1024)"
| "is_double v = True"

section \<open>The schemas (schemas.py)\<close>

record Service =
  name :: string
  category :: string
  code :: string
  price_single :: pyfloat
  price_package_6x :: "pyfloat option"
  duration_min :: int

record Package =
  title :: string
  description :: "string option"
  code :: string
  included_codes :: "string list"
  price_single :: pyfloat
  promo_6_plus_2 :: bool

definition Service_model_fields :: "string set" where
  "Service_model_fields =
     {''name'', ''category'', ''code'', ''price_single'', ''price_package_6x'', ''duration_min''}"

definition Package_model_fields :: "string set" where
  "Package_model_fields =
     {''title'', ''description'', ''code'', ''included_codes'', ''price_single'', ''promo_6_plus_2''}"

section \<open>The in-memory defaults (main.py)\<close>

definition mk_service :: "string \<Rightarrow> string \<Rightarrow> string \<Rightarrow> rat \<Rightarrow> int \<Rightarrow> Service" where
  "mk_service n cat c p d =
     \<lparr>name = n, category = cat, code = c, price_single = Finite p,
      price_package_6x = None, duration_min = d\<rparr>"

definition DEFAULT_SERVICES :: "Service list" where
  "DEFAULT_SERVICES =
     [mk_service ''Oksels'' ''Oksels'' ''OKS'' 39 15,
      mk_service ''Bikinilijn klein'' ''Bikinilijn'' ''BIK-K'' 49 20,
      mk_service ''Bikinilijn groot'' ''Bikinilijn'' ''BIK-G'' 69 25,
      mk_service ''Onderbenen'' ''Benen'' ''BEN-OND'' 79 30,
      mk_service ''Bovenbenen'' ''Benen'' ''BEN-BOV'' 89 35,
      mk_service ''Hele benen'' ''Benen'' ''BEN-HELE'' 129 55,
      mk_service ''Bovenlip'' ''Gezicht'' ''GEZ-LIP'' 29 10,
      mk_service ''Kin'' ''Gezicht'' ''GEZ-KIN'' 29 10,
      mk_service ''Gehele gelaat'' ''Gezicht'' ''GEZ-FULL'' 79 35,
      mk_service ''Onderarmen'' ''Armen'' ''ARM-OND'' 59 25,
      mk_service ''Hele armen'' ''Armen'' ''ARM-HELE'' 89 35]"

definition DEFAULT_PACKAGES :: "Package list" where
  "DEFAULT_PACKAGES =
     [\<lparr>title = ''Full body'',
       description = Some ''Hele armen + oksels + buik + hele benen + bikinilijn klein'',
       code = ''FB-STD'',
       included_codes = [''ARM-HELE'', ''OKS'', ''BEN-HELE'', ''BIK-K''],
       price_single = Finite 279,
       promo_6_plus_2 = True\<rparr>,
      \<lparr>title = ''Full body + gelaat'',
       description = Some ''Full body met gehele gelaat als luxere variant'',
       code = ''FB-LUX'',
       included_codes = [''ARM-HELE'', ''OKS'', ''BEN-HELE'', ''BIK-K'', ''GEZ-FULL''],
       price_single = Finite 329,
       promo_6_plus_2 = True\<rparr>]"

section \<open>The catalog endpoints\<close>

text \<open>
  A stored document is a dict from field names to values. The read
  \<open>get_documents(name)\<close> belongs to the database module and the constructors
  \<open>Service(**kw)\<close> and \<open>Package(**kw)\<close> to pydantic: the outcome of the read
  (\<open>Inl\<close> when it raised) and the constructor (\<open>Inl\<close> when validation raised) are
  parameters of the model. The list comprehension stops at the first constructor that
  raises; \<open>except Exception: pass\<close> then falls through to the defaults.
\<close>

type_synonym 'v doc = "string \<rightharpoonup> 'v"

fun construct_all :: "('d \<Rightarrow> py_error + 'a) \<Rightarrow> 'd list \<Rightarrow> py_error + 'a list" where
  "construct_all mk [] = Inr []"
| "construct_all mk (d # ds) =
     (case mk d of
        Inl e \<Rightarrow> Inl e
      | Inr x \<Rightarrow> (case construct_all mk ds of Inl e \<Rightarrow> Inl e | Inr xs \<Rightarrow> Inr (x # xs)))"

definition list_services ::
  "('v doc \<Rightarrow> py_error + Service) \<Rightarrow> py_error + 'v doc list \<Rightarrow> Service list" where
  "list_services mk read =
     (case read of
        Inl e \<Rightarrow> DEFAULT_SERVICES
      | Inr docs \<Rightarrow>
          if docs \<noteq> []
          then (case construct_all (\<lambda>d. mk (d |` Service_model_fields)) docs of
                  Inl e \<Rightarrow> DEFAULT_SERVICES
                | Inr svcs \<Rightarrow> svcs)
          else DEFAULT_SERVICES)"

definition list_packages ::
  "('v doc \<Rightarrow> py_error + Package) \<Rightarrow> py_error + 'v doc list \<Rightarrow> Package list" where
  "list_packages mk read =
     (case read of
        Inl e \<Rightarrow> DEFAULT_PACKAGES
      | Inr docs \<Rightarrow>
          if docs \<noteq> []
          then (case construct_all (\<lambda>d. mk (d |` Package_model_fields)) docs of
                  Inl e \<Rightarrow> DEFAULT_PACKAGES
                | Inr pkgs \<Rightarrow> pkgs)
          else DEFAULT_PACKAGES)"

section \<open>The price calculator\<close>

record PriceCalcRequest =
  selected_codes :: "string list"
  sessions :: int

text \<open>A line item is a dict literal; its keys are kept in the order the source writes them.\<close>

datatype pyval = PyStr string | PyFloat pyfloat | PyBool bool

type_synonym line_item = "(string \<times> pyval) list"

record PriceCalcResponse =
  items :: "line_item list"
  subtotal :: pyfloat
  promo_label :: "string option"
  total :: pyfloat

text \<open>\<open>{s.code: s for s in list_services()}\<close>: a later service replaces an earlier one with the same code.\<close>

definition services_dict :: "Service list \<Rightarrow> (string \<rightharpoonup> Service)" where
  "services_dict svcs = fold (\<lambda>s m. m(Service.code s \<mapsto> s)) svcs Map.empty"

text \<open>The \<open>for code in payload.selected_codes\<close> loop, on the pair of the variables it updates.\<close>

fun calc_loop ::
  "(string \<rightharpoonup> Service) \<Rightarrow> Package list \<Rightarrow> string list \<Rightarrow> line_item list \<times> pyfloat
     \<Rightarrow> line_item list \<times> pyfloat" where
  "calc_loop services packages [] (its, sub) = (its, sub)"
| "calc_loop services packages (c # cs) (its, sub) =
     (case services c of
        Some s \<Rightarrow>
          (let price = Service.price_single s
           in calc_loop services packages cs
                (its @ [[(''code'', PyStr c), (''name'', PyStr (Service.name s)),
                         (''price'', PyFloat price)]],
                 fadd sub price))
      | None \<Rightarrow>
          (case find (\<lambda>p. Package.code p = c) packages of
             Some pkg \<Rightarrow>
               (let price = Package.price_single pkg
                in calc_loop services packages cs
                     (its @ [[(''code'', PyStr c), (''name'', PyStr (Package.title pkg)),
                              (''price'', PyFloat price), (''package'', PyBool True)]],
                      fadd sub price))
           | None \<Rightarrow> calc_loop services packages cs (its, sub)))"

text \<open>
  \<open>calculate_price\<close>, given the lists that its calls of \<open>list_services()\<close> and
  \<open>list_packages()\<close> returned. \<open>Inl\<close> is an exception leaving the function.
\<close>

definition calculate_price ::
  "Service list \<Rightarrow> Package list \<Rightarrow> PriceCalcRequest \<Rightarrow> py_error + PriceCalcResponse" where
  "calculate_price svcs packages payload =
     (let services = services_dict svcs;
          (its, sub) = calc_loop services packages (selected_codes payload) ([], Finite 0)
      in case (if sessions payload = 8
               then (case py_round2 (fmul sub (Finite (3 / 4))) of
                       Inl e \<Rightarrow> Inl e
                     | Inr tot \<Rightarrow> Inr (Some ''6 + 2 gratis'', tot))
               else Inr (None, sub)) of
           Inl e \<Rightarrow> Inl e
         | Inr (label, tot) \<Rightarrow>
             (case py_round2 sub of
                Inl e \<Rightarrow> Inl e
              | Inr rsub \<Rightarrow>
                  (case py_round2 tot of
                     Inl e \<Rightarrow> Inl e
                   | Inr rtot \<Rightarrow>
                       Inr \<lparr>items = its, subtotal = rsub, promo_label = label, total = rtot\<rparr>)))"

section \<open>Specification-level views of the calculator\<close>

text \<open>
  What one selected code resolves to, in the words of the specification: a service
  with that code (the dict keeps the last one in catalog order), else the first
  package with that code, else nothing.
\<close>

definition resolve_code :: "Service list \<Rightarrow> Package list \<Rightarrow> string \<Rightarrow> line_item option" where
  "resolve_code svcs packages c =
     (case find (\<lambda>s. Service.code s = c) (rev svcs) of
        Some s \<Rightarrow> Some [(''code'', PyStr c), (''name'', PyStr (Service.name s)),
                       (''price'', PyFloat (Service.price_single s))]
      | None \<Rightarrow>
          (case find (\<lambda>p. Package.code p = c) packages of
             Some pkg \<Rightarrow> Some [(''code'', PyStr c), (''name'', PyStr (Package.title pkg)),
                              (''price'', PyFloat (Package.price_single pkg)),
                              (''package'', PyBool True)]
           | None \<Rightarrow> None))"

definition item_prices :: "line_item list \<Rightarrow> pyfloat list" where
  "item_prices its =
     List.map_filter (\<lambda>it. case map_of it ''price'' of Some (PyFloat p) \<Rightarrow> Some p | _ \<Rightarrow> None) its"

definition raw_sum :: "line_item list \<Rightarrow> pyfloat" where
  "raw_sum its = foldl fadd (Finite 0) (item_prices its)"

definition matched :: "Service list \<Rightarrow> Package list \<Rightarrow> string \<Rightarrow> bool" where
  "matched svcs packages c \<longleftrightarrow>
     c \<in> set (map Service.code svcs) \<or> c \<in> set (map Package.code packages)"

section \<open>Two further catalogs\<close>

text \<open>
  Stored catalogs that pass the schema: two services priced 9.95 and 39.95, and
  three services priced 0.125, 0.015 and 0.005. The prices are the binary64 values
  that Python holds for these literals.
\<close>

definition cent_services :: "Service list" where
  "cent_services =
     [mk_service ''Zone A'' ''Zones'' ''A'' (2800676018271027 / 281474976710656) 10,
      mk_service ''Zone B'' ''Zones'' ''B'' (2811231329897677 / 70368744177664) 20]"

definition half_cent_services :: "Service list" where
  "half_cent_services =
     [mk_service ''Zone A'' ''Zones'' ''A'' (1 / 8) 10,
      mk_service ''Zone B'' ''Zones'' ''B'' (1080863910568919 / 72057594037927936) 10,
      mk_service ''Zone C'' ''Zones'' ''C'' (5764607523034235 / 1152921504606846976) 10]"

section \<open>A stored document and a constructor\<close>

text \<open>
  A stored service document with a persistence identifier beside its declared fields,
  and a constructor that reads the name, the category and the code it is given.
\<close>

definition example_constructor :: "string doc \<Rightarrow> py_error + Service" where
  "example_constructor d =
     (case (d ''name'', d ''category'', d ''code'') of
        (Some n, Some cat, Some c) \<Rightarrow> Inr (mk_service n cat c 25 15)
      | _ \<Rightarrow> Inl ValidationError)"

definition example_doc :: "string \<Rightarrow> string doc" where
  "example_doc ident =
     [''_id'' \<mapsto> ident, ''name'' \<mapsto> ''Rug'', ''category'' \<mapsto> ''Rug'', ''code'' \<mapsto> ''RUG'']"

section \<open>Powers of two and rounding to an integer\<close>

lemma pow2_powi: "pow2 e = 2 powi e"
proof (cases "0 \<le> e")
  case True
  then show ?thesis by (simp add: pow2_def power_int_def)
next
  case False
  have "inverse (2::rat) ^ nat (- e) = 1 / 2 ^ nat (- e)"
    by (simp only: inverse_eq_divide power_one_over)
  with False show ?thesis by (simp only: pow2_def power_int_def if_False)
qed

lemma pow2_pos: "0 < pow2 e"
  by (simp add: pow2_powi)

lemma pow2_add: "pow2 (a + b) = pow2 a * pow2 b"
  by (simp add: pow2_powi power_int_add)

lemma pow2_mono: "a \<le> b \<Longrightarrow> pow2 a \<le> pow2 b"
  by (simp add: pow2_powi power_int_increasing)

lemma pow2_strict_mono: "a < b \<Longrightarrow> pow2 a < pow2 b"
  by (simp add: pow2_powi power_int_strict_increasing)

lemma pow2_less_iff: "pow2 a < pow2 b \<longleftrightarrow> a < b"
  using pow2_strict_mono [of a b] pow2_mono [of b a] by (cases "a < b") auto

lemma pow2_le_iff: "pow2 a \<le> pow2 b \<longleftrightarrow> a \<le> b"
  using pow2_strict_mono [of b a] pow2_mono [of a b] by (cases "a \<le> b") auto


lemma rhe_lower: "r - 1 / 2 \<le> of_int (round_half_even r)"
  unfolding round_half_even_def Let_def by (auto; linarith)

lemma rhe_upper: "of_int (round_half_even r) \<le> r + 1 / 2"
  unfolding round_half_even_def Let_def by (auto; linarith)

lemma rhe_of_int: "round_half_even (of_int n) = n"
  unfolding round_half_even_def Let_def by simp

lemma rhe_floor_le: "\<lfloor>r\<rfloor> \<le> round_half_even r"
  unfolding round_half_even_def Let_def by simp

lemma rhe_le_floor: "round_half_even r \<le> \<lfloor>r\<rfloor> + 1"
  unfolding round_half_even_def Let_def by simp

lemma rhe_mono: "round_half_even r \<le> round_half_even s" if "r \<le> s"
proof (cases "\<lfloor>r\<rfloor> = \<lfloor>s\<rfloor>")
  case True
  with that show ?thesis
    unfolding round_half_even_def Let_def by (simp; linarith)
next
  case False
  with that have "\<lfloor>r\<rfloor> + 1 \<le> \<lfloor>s\<rfloor>"
    using floor_mono [of r s] by linarith
  with rhe_le_floor [of r] rhe_floor_le [of s] show ?thesis by linarith
qed

lemma rhe_nearest: "\<bar>of_int (round_half_even r) - r\<bar> \<le> \<bar>of_int k - r\<bar>"
proof (cases "k \<le> \<lfloor>r\<rfloor>")
  case True
  then have "of_int k \<le> (of_int \<lfloor>r\<rfloor> :: rat)" by simp
  then show ?thesis
    unfolding round_half_even_def Let_def by (simp; linarith)
next
  case False
  then have "\<lfloor>r\<rfloor> + 1 \<le> k" by simp
  then have "of_int \<lfloor>r\<rfloor> + 1 \<le> (of_int k :: rat)"
    by (metis of_int_1 of_int_add of_int_le_iff)
  then show ?thesis
    unfolding round_half_even_def Let_def by (simp; linarith)
qed

lemma pow2_diff: "pow2 (a - b) = pow2 a / pow2 b"
proof -
  have "pow2 (a - b) * pow2 b = pow2 a"
    using pow2_add [of "a - b" b] by simp
  then show ?thesis using pow2_pos [of b] by (simp add: field_simps)
qed

lemma pow2_nat: "0 \<le> k \<Longrightarrow> pow2 k = of_int (2 ^ nat k)"
  by (simp add: pow2_def)

lemma bitlen_pow2_bounds:
  assumes "0 < n"
  shows "pow2 (bitlen n - 1) \<le> of_int n" and "of_int n < pow2 (bitlen n)"
proof -
  from assms have b: "1 \<le> bitlen n"
    using bitlen_eq_zero_iff [of n] bitlen_nonneg [of n] by linarith
  from bitlen_bounds [OF assms]
  have lo: "2 ^ nat (bitlen n - 1) \<le> n" and hi: "n < 2 ^ nat (bitlen n)" by simp_all
  from lo have "(of_int (2 ^ nat (bitlen n - 1)) :: rat) \<le> of_int n"
    by (simp only: of_int_le_iff)
  with b show "pow2 (bitlen n - 1) \<le> of_int n" by (simp add: pow2_nat)
  from hi have "(of_int n :: rat) < of_int (2 ^ nat (bitlen n))"
    by (simp only: of_int_less_iff)
  with b show "of_int n < pow2 (bitlen n)" by (simp add: pow2_nat)
qed

lemma flog2_bounds:
  assumes "0 < x"
  shows "pow2 (flog2 x) \<le> x" and "x < pow2 (flog2 x + 1)"
proof -
  obtain p q where pq: "quotient_of x = (p, q)" by (cases "quotient_of x")
  then have q: "0 < q" and x: "x = of_int p / of_int q"
    using quotient_of_denom_pos quotient_of_div by blast+
  from assms x q have p: "0 < p" by (simp add: zero_less_divide_iff)
  define k where "k = bitlen p - bitlen q"
  have fl: "flog2 x = (if pow2 k \<le> x then k else k - 1)"
    by (simp add: flog2_def pq k_def Let_def)
  have qpos: "(0::rat) < of_int q" using q by simp
  have "of_int p < pow2 (bitlen p)" using bitlen_pow2_bounds(2) [OF p] .
  moreover have "pow2 (bitlen q - 1) \<le> of_int q" using bitlen_pow2_bounds(1) [OF q] .
  ultimately have "x < pow2 (bitlen p) / pow2 (bitlen q - 1)"
    unfolding x using qpos pow2_pos [of "bitlen q - 1"]
    by (meson frac_less linorder_not_le order_less_imp_le of_int_0_le_iff p less_imp_le)
  then have up: "x < pow2 (k + 1)"
    by (simp add: k_def pow2_diff [symmetric] algebra_simps)
  have "pow2 (bitlen p - 1) \<le> of_int p" using bitlen_pow2_bounds(1) [OF p] .
  moreover have "of_int q < pow2 (bitlen q)" using bitlen_pow2_bounds(2) [OF q] .
  ultimately have "pow2 (bitlen p - 1) / pow2 (bitlen q) < x"
    unfolding x using qpos pow2_pos [of "bitlen p - 1"]
    by (meson frac_less2 order_less_imp_le)
  then have lo: "pow2 (k - 1) < x"
    by (simp add: k_def pow2_diff [symmetric] algebra_simps)
  show "pow2 (flog2 x) \<le> x" using fl lo by (simp split: if_splits)
  show "x < pow2 (flog2 x + 1)" using fl up by (simp split: if_splits)
qed

lemma flog2_unique:
  assumes "pow2 k \<le> x" and "x < pow2 (k + 1)"
  shows "flog2 x = k"
proof -
  have x: "0 < x" using assms(1) pow2_pos [of k] by linarith
  from flog2_bounds [OF x] assms
  have "pow2 (flog2 x) < pow2 (k + 1)" and "pow2 k < pow2 (flog2 x + 1)" by linarith+
  then show ?thesis by (simp add: pow2_less_iff)
qed

section \<open>Rounding to binary64\<close>

lemma rhe_eqI_strict: "round_half_even r = n" if "\<bar>of_int n - r\<bar> < 1 / 2"
proof (cases "of_int n \<le> r")
  case True
  with that have "\<lfloor>r\<rfloor> = n" by (intro floor_unique) linarith+
  with that True show ?thesis
    unfolding round_half_even_def Let_def by (simp; linarith)
next
  case False
  with that have "\<lfloor>r\<rfloor> = n - 1" by (intro floor_unique) (simp; linarith)+
  with that False show ?thesis
    unfolding round_half_even_def Let_def by (simp; linarith)
qed

lemma rhe_eqI_tie: "round_half_even r = n" if "\<bar>of_int n - r\<bar> = 1 / 2" and "even n"
proof (cases "of_int n \<le> r")
  case True
  with that have "\<lfloor>r\<rfloor> = n" by (intro floor_unique) linarith+
  with that True show ?thesis
    unfolding round_half_even_def Let_def by (simp; linarith)
next
  case False
  with that have "\<lfloor>r\<rfloor> = n - 1" by (intro floor_unique) (simp; linarith)+
  with that False show ?thesis
    unfolding round_half_even_def Let_def by (simp; linarith)
qed

lemma rhe_tie_even: "even (round_half_even r)" if "\<bar>of_int (round_half_even r) - r\<bar> = 1 / 2"
proof -
  define d where "d = r - of_int \<lfloor>r\<rfloor>"
  have d: "0 \<le> d" "d < 1" unfolding d_def by linarith+
  have r: "round_half_even r =
      (if d < 1 / 2 then \<lfloor>r\<rfloor> else if 1 / 2 < d then \<lfloor>r\<rfloor> + 1
       else if even \<lfloor>r\<rfloor> then \<lfloor>r\<rfloor> else \<lfloor>r\<rfloor> + 1)"
    unfolding round_half_even_def Let_def d_def by simp
  show ?thesis
  proof (cases "d = 1 / 2")
    case True
    then show ?thesis unfolding r by simp
  next
    case False
    then consider "d < 1 / 2" | "1 / 2 < d" by linarith
    then have "\<bar>of_int (round_half_even r) - r\<bar> \<noteq> 1 / 2"
    proof cases
      case 1
      then have "of_int (round_half_even r) - r = - d" unfolding r d_def by simp
      with 1 d show ?thesis by linarith
    next
      case 2
      then have "of_int (round_half_even r) - r = 1 - d" unfolding r d_def by simp
      with 2 d show ?thesis by linarith
    qed
    with that show ?thesis by simp
  qed
qed

lemma rhe_neg: "round_half_even (- r) = - round_half_even r"
proof (cases "\<bar>of_int (round_half_even r) - r\<bar> < 1 / 2")
  case True
  then have "\<bar>of_int (- round_half_even r) - (- r)\<bar> < 1 / 2"
    by (simp only: of_int_minus; linarith)
  then show ?thesis by (rule rhe_eqI_strict)
next
  case False
  with rhe_lower [of r] rhe_upper [of r]
  have tie: "\<bar>of_int (round_half_even r) - r\<bar> = 1 / 2" by linarith
  then have "even (- round_half_even r)" using rhe_tie_even [of r] by simp
  moreover from tie have "\<bar>of_int (- round_half_even r) - (- r)\<bar> = 1 / 2"
    by (simp only: of_int_minus; linarith)
  ultimately show ?thesis by (intro rhe_eqI_tie)
qed

lemma ulp_exp_neg: "ulp_exp (- x) = ulp_exp x"
  by (simp add: ulp_exp_def)

lemma rnd_neg: "rnd (- x) = - rnd x"
  by (simp add: rnd_def ulp_exp_neg rhe_neg)

lemma rnd_0: "rnd 0 = 0"
  by (simp add: rnd_def)

lemma flog2_mono: "flog2 x \<le> flog2 y" if "0 < x" and "x \<le> y"
proof -
  from that have y: "0 < y" by linarith
  from flog2_bounds(1) [OF that(1)] flog2_bounds(2) [OF y] that(2)
  have "pow2 (flog2 x) < pow2 (flog2 y + 1)" by linarith
  then show ?thesis by (simp add: pow2_less_iff)
qed

lemma ulp_exp_mono: "ulp_exp x \<le> ulp_exp y" if "0 < x" and "x \<le> y"
  using flog2_mono [of x y] that by (simp add: ulp_exp_def)

lemma ulp_exp_ge: "- 1074 \<le> ulp_exp x"
  by (simp add: ulp_exp_def)

text \<open>The scaled significand of a positive number is below \<open>2 ^ 53\<close>.\<close>

lemma scaled_less: "x / pow2 (ulp_exp x) < pow2 53" if "0 < x"
proof -
  have "flog2 x + 1 \<le> ulp_exp x + 53" using that by (simp add: ulp_exp_def)
  then have "pow2 (flog2 x + 1) \<le> pow2 (ulp_exp x + 53)" by (rule pow2_mono)
  with flog2_bounds(2) [OF that] have "x < pow2 53 * pow2 (ulp_exp x)"
    by (simp add: pow2_add mult.commute)
  then show ?thesis using pow2_pos [of "ulp_exp x"] by (simp add: pos_divide_less_eq)
qed

lemma scaled_ge: "pow2 52 \<le> x / pow2 (ulp_exp x)" if "0 < x" and "- 1074 < ulp_exp x"
proof -
  from that have "ulp_exp x = flog2 x - 52" by (simp add: ulp_exp_def split: if_splits)
  then have "pow2 (flog2 x) = pow2 52 * pow2 (ulp_exp x)"
    using pow2_add [of 52 "ulp_exp x"] by simp
  with flog2_bounds(1) [OF that(1)] have "pow2 52 * pow2 (ulp_exp x) \<le> x" by simp
  then show ?thesis using pow2_pos [of "ulp_exp x"] by (simp add: pos_le_divide_eq)
qed

lemma pow2_numeral: "pow2 (numeral k) = of_int (2 ^ numeral k)"
  by (simp add: pow2_def)

lemma rhe_scaled_le: "round_half_even (x / pow2 (ulp_exp x)) \<le> 2 ^ 53" if "0 < x"
proof -
  have "x / pow2 (ulp_exp x) \<le> of_int (2 ^ 53)"
    using scaled_less [OF that] by (simp add: pow2_def)
  from rhe_mono [OF this] show ?thesis by (simp only: rhe_of_int)
qed

lemma rhe_scaled_ge: "2 ^ 52 \<le> round_half_even (x / pow2 (ulp_exp x))"
  if "0 < x" and "- 1074 < ulp_exp x"
proof -
  have "of_int (2 ^ 52) \<le> x / pow2 (ulp_exp x)"
    using scaled_ge [OF that] by (simp add: pow2_def)
  from rhe_mono [OF this] show ?thesis by (simp only: rhe_of_int)
qed

lemma rhe_nonneg: "0 \<le> round_half_even r" if "0 \<le> r"
  using rhe_mono [of 0 r] that rhe_of_int [of 0] by simp

lemma rnd_nonneg: "0 \<le> rnd x" if "0 \<le> x"
proof (cases "x = 0")
  case True
  then show ?thesis by (simp add: rnd_0)
next
  case False
  with that have "0 \<le> x / pow2 (ulp_exp x)" using pow2_pos [of "ulp_exp x"] by simp
  from rhe_nonneg [OF this] show ?thesis
    using False pow2_pos [of "ulp_exp x"] by (simp add: rnd_def)
qed

lemma rnd_mono_pos: "rnd x \<le> rnd y" if "0 < x" and "x \<le> y"
proof -
  from that have y: "0 < y" by linarith
  let ?ex = "ulp_exp x" and ?ey = "ulp_exp y"
  have rx: "rnd x = of_int (round_half_even (x / pow2 ?ex)) * pow2 ?ex"
    using that(1) by (simp add: rnd_def)
  have ry: "rnd y = of_int (round_half_even (y / pow2 ?ey)) * pow2 ?ey"
    using y by (simp add: rnd_def)
  have le: "?ex \<le> ?ey" using that by (rule ulp_exp_mono)
  show ?thesis
  proof (cases "?ex = ?ey")
    case True
    have "x / pow2 ?ey \<le> y / pow2 ?ey"
      using that(2) pow2_pos [of ?ey] by (simp add: divide_right_mono)
    from rhe_mono [OF this] show ?thesis
      unfolding rx ry True using pow2_pos [of ?ey] by (simp add: mult_right_mono)
  next
    case False
    with le have lt: "?ex + 1 \<le> ?ey" by simp
    with ulp_exp_ge [of x] have "- 1074 < ?ey" by linarith
    from rhe_scaled_ge [OF y this]
    have "(of_int (2 ^ 52) :: rat) \<le> of_int (round_half_even (y / pow2 ?ey))"
      by (simp only: of_int_le_iff)
    then have "pow2 52 * pow2 ?ey \<le> rnd y"
      unfolding ry using pow2_pos [of ?ey] by (simp add: pow2_def mult_right_mono)
    then have lower: "pow2 (?ey + 52) \<le> rnd y" by (simp add: pow2_add mult.commute)
    from rhe_scaled_le [OF that(1)]
    have "(of_int (round_half_even (x / pow2 ?ex)) :: rat) \<le> of_int (2 ^ 53)"
      by (simp only: of_int_le_iff)
    then have "rnd x \<le> pow2 53 * pow2 ?ex"
      unfolding rx using pow2_pos [of ?ex] by (simp add: pow2_def mult_right_mono)
    then have upper: "rnd x \<le> pow2 (?ex + 53)" by (simp add: pow2_add mult.commute)
    have "pow2 (?ex + 53) \<le> pow2 (?ey + 52)" using lt by (intro pow2_mono) simp
    with lower upper show ?thesis by linarith
  qed
qed

lemma rnd_mono: "rnd x \<le> rnd y" if "x \<le> y"
proof -
  consider "0 < x" | "x \<le> 0" "0 \<le> y" | "y < 0" by linarith
  then show ?thesis
  proof cases
    case 1
    then show ?thesis using that by (rule rnd_mono_pos)
  next
    case 2
    have "rnd x \<le> 0" using rnd_nonneg [of "- x"] 2(1) by (simp add: rnd_neg)
    with rnd_nonneg [OF 2(2)] show ?thesis by linarith
  next
    case 3
    then have "rnd (- y) \<le> rnd (- x)" using that by (intro rnd_mono_pos) simp_all
    then show ?thesis by (simp add: rnd_neg)
  qed
qed

lemma rnd_of_scaled_int: "rnd r = r" if "r \<noteq> 0" and "r / pow2 (ulp_exp r) = of_int k"
proof -
  have "rnd r = of_int k * pow2 (ulp_exp r)"
    using that by (simp add: rnd_def rhe_of_int)
  also have "\<dots> = r" using that(2) [symmetric] pow2_pos [of "ulp_exp r"] by simp
  finally show ?thesis .
qed

lemma rnd_fixI_pos: "rnd (of_int m * pow2 e) = of_int m * pow2 e"
  if e: "- 1074 \<le> e" and m: "0 < m" "m \<le> 2 ^ 53"
proof -
  define r where "r = of_int m * pow2 e"
  have rpos: "0 < r" unfolding r_def using m(1) pow2_pos [of e] by simp
  have "(of_int m :: rat) \<le> of_int (2 ^ 53)" using m(2) by (simp only: of_int_le_iff)
  then have "r \<le> pow2 53 * pow2 e"
    unfolding r_def using pow2_pos [of e] by (simp add: pow2_def mult_right_mono)
  then have rle: "r \<le> pow2 (e + 53)" by (simp add: pow2_add mult.commute)
  define u where "u = ulp_exp r"
  have upos: "pow2 u \<noteq> 0" using pow2_pos [of u] by simp
  have "\<exists>k. r / pow2 u = of_int k"
  proof (cases "u \<le> e")
    case True
    then have "pow2 e = pow2 (e - u) * pow2 u"
      using pow2_add [of "e - u" u] by simp
    moreover have "pow2 (e - u) = of_int (2 ^ nat (e - u))"
      using True by (simp add: pow2_nat)
    ultimately have "r = of_int (m * 2 ^ nat (e - u)) * pow2 u"
      unfolding r_def by simp
    then have "r / pow2 u = of_int (m * 2 ^ nat (e - u))"
      using upos by simp
    then show ?thesis ..
  next
    case False
    with e have gt: "e + 53 \<le> flog2 r"
      using rpos by (simp add: u_def ulp_exp_def split: if_splits)
    from gt have "pow2 (e + 53) \<le> pow2 (flog2 r)" by (rule pow2_mono)
    with flog2_bounds(1) [OF rpos] rle have req: "r = pow2 (e + 53)" by linarith
    have "flog2 r = e + 53"
      by (rule flog2_unique) (simp_all add: req pow2_less_iff)
    then have ue: "u = e + 1" using e rpos by (simp add: u_def ulp_exp_def)
    have "pow2 (e + 53) = pow2 52 * pow2 (e + 1)"
      using pow2_add [of 52 "e + 1"] by (simp add: add.commute)
    then have "r = of_int (2 ^ 52) * pow2 u"
      unfolding ue req by (simp add: pow2_def)
    then have "r / pow2 u = of_int (2 ^ 52)"
      using upos by simp
    then show ?thesis ..
  qed
  then obtain k where "r / pow2 (ulp_exp r) = of_int k" unfolding u_def ..
  with rpos have "rnd r = r" by (intro rnd_of_scaled_int) simp_all
  then show ?thesis by (simp add: r_def)
qed

lemma rnd_fixI: "rnd (of_int m * pow2 e) = of_int m * pow2 e"
  if "- 1074 \<le> e" and "\<bar>m\<bar> \<le> 2 ^ 53"
proof -
  consider "0 < m" | "m = 0" | "m < 0" by linarith
  then show ?thesis
  proof cases
    case 1
    with that show ?thesis by (intro rnd_fixI_pos) simp_all
  next
    case 2
    then show ?thesis by (simp add: rnd_0)
  next
    case 3
    with that have "rnd (of_int (- m) * pow2 e) = of_int (- m) * pow2 e"
      by (intro rnd_fixI_pos) simp_all
    then have "rnd (- (of_int m * pow2 e)) = - (of_int m * pow2 e)" by simp
    then show ?thesis by (simp only: rnd_neg neg_equal_iff_equal)
  qed
qed

lemma rnd_idem_pos: "rnd (rnd x) = rnd x" if "0 < x"
proof -
  have "rnd x = of_int (round_half_even (x / pow2 (ulp_exp x))) * pow2 (ulp_exp x)"
    using that by (simp add: rnd_def)
  moreover have "0 \<le> round_half_even (x / pow2 (ulp_exp x))"
    using that pow2_pos [of "ulp_exp x"] by (intro rhe_nonneg) simp
  moreover note rhe_scaled_le [OF that] ulp_exp_ge [of x]
  ultimately show ?thesis by (simp add: rnd_fixI)
qed

lemma rnd_idem: "rnd (rnd x) = rnd x"
proof -
  consider "0 < x" | "x = 0" | "x < 0" by linarith
  then show ?thesis
  proof cases
    case 1
    then show ?thesis by (rule rnd_idem_pos)
  next
    case 2
    then show ?thesis by (simp add: rnd_0)
  next
    case 3
    then have "rnd (rnd (- x)) = rnd (- x)" by (intro rnd_idem_pos) simp
    then show ?thesis by (simp add: rnd_neg)
  qed
qed

lemma rnd_pow2: "rnd (pow2 e) = pow2 e" if "- 1074 \<le> e"
  using rnd_fixI [of e 1] that by simp

lemma rnd_abs: "\<bar>rnd x\<bar> = rnd \<bar>x\<bar>"
proof (cases "0 \<le> x")
  case True
  then show ?thesis using rnd_nonneg [of x] by simp
next
  case False
  then have "0 \<le> rnd (- x)" by (intro rnd_nonneg) simp
  with False show ?thesis by (simp add: rnd_neg)
qed

text \<open>A representable number of magnitude \<open>2 ^ 53\<close> or more is an integer.\<close>

lemma double_large_int:
  assumes "rnd x = x" and "pow2 53 \<le> x"
  shows "\<exists>k. x = of_int k"
proof -
  have xpos: "0 < x" using assms(2) pow2_pos [of 53] by linarith
  have "flog2 (pow2 53) \<le> flog2 x" using assms(2) pow2_pos [of 53] by (intro flog2_mono)
  moreover have "flog2 (pow2 53) = 53" by (rule flog2_unique) (simp_all add: pow2_less_iff)
  ultimately have "1 \<le> ulp_exp x" using xpos by (simp add: ulp_exp_def)
  then have "pow2 (ulp_exp x) = of_int (2 ^ nat (ulp_exp x))" by (simp add: pow2_nat)
  with assms(1) xpos
  have "x = of_int (round_half_even (x / pow2 (ulp_exp x)) * 2 ^ nat (ulp_exp x))"
    by (simp add: rnd_def)
  then show ?thesis ..
qed

lemma round2_in_range:
  assumes "rnd x = x" and "\<bar>x\<bar> < pow2 1024"
  shows "\<bar>rnd (of_int (round_half_even (100 * x)) / 100)\<bar> < pow2 1024"
proof -
  let ?d = "of_int (round_half_even (100 * x)) / 100 :: rat"
  have ax: "rnd \<bar>x\<bar> = \<bar>x\<bar>" using assms(1) rnd_abs [of x] by simp
  have d_abs: "\<bar>?d\<bar> = of_int (round_half_even (100 * \<bar>x\<bar>)) / 100"
  proof (cases "0 \<le> x")
    case True
    then show ?thesis using rhe_nonneg [of "100 * x"] by simp
  next
    case False
    then have "0 \<le> round_half_even (100 * (- x))" by (intro rhe_nonneg) simp
    moreover have "100 * (- x) = - (100 * x)" by simp
    ultimately show ?thesis using False by (simp add: rhe_neg)
  qed
  show ?thesis
  proof (cases "pow2 53 \<le> \<bar>x\<bar>")
    case True
    from double_large_int [OF ax True] obtain k where k: "\<bar>x\<bar> = of_int k" ..
    have "100 * \<bar>x\<bar> = of_int (100 * k)" by (simp add: k)
    then have "round_half_even (100 * \<bar>x\<bar>) = 100 * k" by (simp only: rhe_of_int)
    then have "\<bar>?d\<bar> = of_int (100 * k) / 100" by (simp only: d_abs)
    then have "\<bar>?d\<bar> = \<bar>x\<bar>" by (simp add: k)
    then have "\<bar>rnd ?d\<bar> = \<bar>x\<bar>" using ax by (simp only: rnd_abs)
    with assms(2) show ?thesis by simp
  next
    case False
    then have "100 * \<bar>x\<bar> \<le> of_int (100 * 2 ^ 53)" by (simp add: pow2_def)
    from rhe_mono [OF this] have "round_half_even (100 * \<bar>x\<bar>) \<le> 100 * 2 ^ 53"
      by (simp only: rhe_of_int)
    then have "(of_int (round_half_even (100 * \<bar>x\<bar>)) :: rat) \<le> of_int (100 * 2 ^ 53)"
      by (simp only: of_int_le_iff)
    then have "\<bar>?d\<bar> \<le> pow2 53" by (simp only: d_abs) (simp add: pow2_def)
    from rnd_mono [OF this] have "\<bar>rnd ?d\<bar> \<le> pow2 53"
      by (simp only: rnd_abs rnd_pow2)
    moreover have "pow2 53 < pow2 1024" by (simp add: pow2_less_iff)
    ultimately show ?thesis by linarith
  qed
qed

section \<open>The loop of the calculator\<close>

lemma is_double_fin_round: "is_double (fin_round x)"
  by (simp add: fin_round_def Let_def rnd_idem)

lemma is_double_fadd: "is_double (fadd a b)"
  by (cases a; cases b) (simp_all add: is_double_fin_round)

lemma is_double_fmul: "is_double (fmul a b)"
  by (cases a; cases b) (simp_all add: is_double_fin_round)

lemma py_round2_ok: "\<exists>y. py_round2 a = Inr y \<and> is_double y" if "is_double a"
proof (cases a)
  case (Finite x)
  with that have "\<bar>rnd (of_int (round_half_even (100 * x)) / 100)\<bar> < pow2 1024"
    by (intro round2_in_range) simp_all
  then show ?thesis using Finite by (simp add: Let_def rnd_idem)
qed simp_all

lemma find_app:
  "find P (xs @ ys) = (case find P xs of None \<Rightarrow> find P ys | Some x \<Rightarrow> Some x)"
  by (induction xs) simp_all

lemma services_dict_fold:
  "fold (\<lambda>s m. m(Service.code s \<mapsto> s)) svcs m c =
     (case find (\<lambda>s. Service.code s = c) (rev svcs) of Some s \<Rightarrow> Some s | None \<Rightarrow> m c)"
proof (induction svcs arbitrary: m)
  case Nil
  then show ?case by simp
next
  case (Cons s svcs)
  have "fold (\<lambda>s m. m(Service.code s \<mapsto> s)) (s # svcs) m c =
      fold (\<lambda>s m. m(Service.code s \<mapsto> s)) svcs (m(Service.code s \<mapsto> s)) c"
    by (simp only: fold_simps comp_apply)
  also have "\<dots> = (case find (\<lambda>s. Service.code s = c) (rev svcs) of
                     Some s' \<Rightarrow> Some s' | None \<Rightarrow> (m(Service.code s \<mapsto> s)) c)"
    by (rule Cons.IH)
  also have "\<dots> = (case find (\<lambda>s. Service.code s = c) (rev (s # svcs)) of
                     Some s' \<Rightarrow> Some s' | None \<Rightarrow> m c)"
    by (simp add: find_app split: option.splits)
  finally show ?case .
qed

lemma services_dict_find:
  "services_dict svcs c = find (\<lambda>s. Service.code s = c) (rev svcs)"
  unfolding services_dict_def services_dict_fold by (simp split: option.splits)

lemma resolve_code_service:
  "services_dict svcs c = Some s \<Longrightarrow>
   resolve_code svcs packages c =
     Some [(''code'', PyStr c), (''name'', PyStr (Service.name s)),
           (''price'', PyFloat (Service.price_single s))]"
  by (simp add: resolve_code_def services_dict_find)

lemma resolve_code_package:
  "services_dict svcs c = None \<Longrightarrow> find (\<lambda>p. Package.code p = c) packages = Some pkg \<Longrightarrow>
   resolve_code svcs packages c =
     Some [(''code'', PyStr c), (''name'', PyStr (Package.title pkg)),
           (''price'', PyFloat (Package.price_single pkg)), (''package'', PyBool True)]"
  by (simp add: resolve_code_def services_dict_find)

lemma resolve_code_none:
  "services_dict svcs c = None \<Longrightarrow> find (\<lambda>p. Package.code p = c) packages = None \<Longrightarrow>
   resolve_code svcs packages c = None"
  by (simp add: resolve_code_def services_dict_find)

lemma item_prices_Nil: "item_prices [] = []"
  by (simp add: item_prices_def List.map_filter_simps)

lemma item_prices_Cons_price:
  "map_of it ''price'' = Some (PyFloat p) \<Longrightarrow> item_prices (it # its) = p # item_prices its"
  by (simp add: item_prices_def List.map_filter_simps)

lemma calc_loop_resolve:
  "calc_loop (services_dict svcs) packages cs (its, sub) =
     (its @ List.map_filter (resolve_code svcs packages) cs,
      foldl fadd sub (item_prices (List.map_filter (resolve_code svcs packages) cs)))"
proof (induction cs arbitrary: its sub)
  case Nil
  then show ?case by (simp add: List.map_filter_simps item_prices_Nil)
next
  case (Cons c cs)
  show ?case
  proof (cases "services_dict svcs c")
    case (Some s)
    from resolve_code_service [OF this, of packages] show ?thesis
      by (simp add: Some Cons.IH List.map_filter_simps item_prices_Cons_price Let_def)
  next
    case None
    show ?thesis
    proof (cases "find (\<lambda>p. Package.code p = c) packages")
      case (Some pkg)
      from resolve_code_package [OF None this] show ?thesis
        by (simp add: None Some Cons.IH List.map_filter_simps item_prices_Cons_price Let_def)
    next
      case None2: None
      from resolve_code_none [OF None this] show ?thesis
        by (simp add: None None2 Cons.IH List.map_filter_simps)
    qed
  qed
qed

lemma item_prices_append: "item_prices (xs @ ys) = item_prices xs @ item_prices ys"
  by (simp add: item_prices_def List.map_filter_def)

lemma is_double_foldl_fadd: "is_double a \<Longrightarrow> is_double (foldl fadd a ps)"
  by (induction ps arbitrary: a) (simp_all add: is_double_fadd)

lemma is_double_raw_sum: "is_double (raw_sum its)"
  by (simp add: raw_sum_def is_double_foldl_fadd rnd_0 pow2_pos)

lemma py_round2_zero: "py_round2 (Finite 0) = Inr (Finite 0)"
  using pow2_pos [of 1024] by (simp add: rhe_of_int [of 0, simplified] rnd_0 Let_def not_le)

lemma raw_sum_Nil: "raw_sum [] = Finite 0"
  by (simp add: raw_sum_def item_prices_Nil)

text \<open>The calculator in terms of the resolved items and their float sum.\<close>

lemma calculate_price_alt:
  "calculate_price svcs packages payload =
     (let its = List.map_filter (resolve_code svcs packages) (selected_codes payload);
          sub = raw_sum its
      in case (if sessions payload = 8
               then (case py_round2 (fmul sub (Finite (3 / 4))) of
                       Inl e \<Rightarrow> Inl e
                     | Inr tot \<Rightarrow> Inr (Some ''6 + 2 gratis'', tot))
               else Inr (None, sub)) of
           Inl e \<Rightarrow> Inl e
         | Inr (label, tot) \<Rightarrow>
             (case py_round2 sub of
                Inl e \<Rightarrow> Inl e
              | Inr rsub \<Rightarrow>
                  (case py_round2 tot of
                     Inl e \<Rightarrow> Inl e
                   | Inr rtot \<Rightarrow>
                       Inr \<lparr>items = its, subtotal = rsub, promo_label = label, total = rtot\<rparr>)))"
  by (simp add: calculate_price_def calc_loop_resolve raw_sum_def Let_def)

lemma calculate_price_promo:
  fixes svcs :: "Service list" and packages :: "Package list" and payload :: PriceCalcRequest
  assumes "sessions payload = 8"
  defines "its \<equiv> List.map_filter (resolve_code svcs packages) (selected_codes payload)"
  shows "\<exists>t rs rt. py_round2 (fmul (raw_sum its) (Finite (3 / 4))) = Inr t \<and>
           py_round2 (raw_sum its) = Inr rs \<and> py_round2 t = Inr rt \<and>
           is_double t \<and> is_double rs \<and> is_double rt \<and>
           calculate_price svcs packages payload =
             Inr \<lparr>items = its, subtotal = rs, promo_label = Some ''6 + 2 gratis'', total = rt\<rparr>"
proof -
  obtain t where t: "py_round2 (fmul (raw_sum its) (Finite (3 / 4))) = Inr t" "is_double t"
    using py_round2_ok [OF is_double_fmul] by blast
  obtain rs where rs: "py_round2 (raw_sum its) = Inr rs" "is_double rs"
    using py_round2_ok [OF is_double_raw_sum] by blast
  obtain rt where rt: "py_round2 t = Inr rt" "is_double rt"
    using py_round2_ok [OF t(2)] by blast
  have "calculate_price svcs packages payload =
      Inr \<lparr>items = its, subtotal = rs, promo_label = Some ''6 + 2 gratis'', total = rt\<rparr>"
    unfolding calculate_price_alt its_def [symmetric] Let_def
    by (simp add: assms(1) t rs rt)
  with t rs rt show ?thesis by blast
qed

lemma calculate_price_plain:
  fixes svcs :: "Service list" and packages :: "Package list" and payload :: PriceCalcRequest
  assumes "sessions payload \<noteq> 8"
  defines "its \<equiv> List.map_filter (resolve_code svcs packages) (selected_codes payload)"
  shows "\<exists>rs. py_round2 (raw_sum its) = Inr rs \<and> is_double rs \<and>
           calculate_price svcs packages payload =
             Inr \<lparr>items = its, subtotal = rs, promo_label = None, total = rs\<rparr>"
proof -
  obtain rs where rs: "py_round2 (raw_sum its) = Inr rs" "is_double rs"
    using py_round2_ok [OF is_double_raw_sum] by blast
  have "calculate_price svcs packages payload =
      Inr \<lparr>items = its, subtotal = rs, promo_label = None, total = rs\<rparr>"
    unfolding calculate_price_alt its_def [symmetric] Let_def
    by (simp add: assms(1) rs)
  with rs show ?thesis by blast
qed

lemma calculate_price_items:
  "\<exists>r. calculate_price svcs packages payload = Inr r \<and>
       items r = List.map_filter (resolve_code svcs packages) (selected_codes payload) \<and>
       py_round2 (raw_sum (items r)) = Inr (subtotal r)"
proof (cases "sessions payload = 8")
  case True
  from calculate_price_promo [OF this, of svcs packages] show ?thesis by force
next
  case False
  from calculate_price_plain [OF this, of svcs packages] show ?thesis by force
qed

section \<open>Claims about the calculator\<close>

text \<open>
  Claim C2. The calculator never fails, and its items are the selected codes resolved
  one by one in input order: a code that is a service code gives the item of that
  service (code, the service's name, its single price); otherwise the first package
  in catalog order with that code gives the item of that package (code, the
  package's title, its single price, marked as a package); any other code gives
  nothing. A code that occurs twice is resolved twice.
\<close>

theorem C2_items_resolve:
  "\<exists>r. calculate_price svcs packages payload = Inr r \<and>
       items r = List.map_filter (resolve_code svcs packages) (selected_codes payload)"
  using calculate_price_items [of svcs packages payload] by blast

text \<open>
  Claim C8. For a fixed catalog and a fixed list of selected codes, two requests that
  differ only in the session count both succeed, with the same items and the same
  subtotal.
\<close>

theorem C8_sessions:
  "\<exists>r1 r2.
     calculate_price svcs packages \<lparr>selected_codes = cs, sessions = n1\<rparr> = Inr r1 \<and>
     calculate_price svcs packages \<lparr>selected_codes = cs, sessions = n2\<rparr> = Inr r2 \<and>
     items r1 = items r2 \<and> subtotal r1 = subtotal r2"
proof -
  obtain r1 where r1: "calculate_price svcs packages \<lparr>selected_codes = cs, sessions = n1\<rparr> = Inr r1"
    "items r1 = List.map_filter (resolve_code svcs packages) cs"
    "py_round2 (raw_sum (items r1)) = Inr (subtotal r1)"
    using calculate_price_items [of svcs packages "\<lparr>selected_codes = cs, sessions = n1\<rparr>"] by auto
  obtain r2 where r2: "calculate_price svcs packages \<lparr>selected_codes = cs, sessions = n2\<rparr> = Inr r2"
    "items r2 = List.map_filter (resolve_code svcs packages) cs"
    "py_round2 (raw_sum (items r2)) = Inr (subtotal r2)"
    using calculate_price_items [of svcs packages "\<lparr>selected_codes = cs, sessions = n2\<rparr>"] by auto
  from r1 r2 have "items r1 = items r2" and "subtotal r1 = subtotal r2" by simp_all
  with r1(1) r2(1) show ?thesis by blast
qed

lemma find_SomeD: "find P xs = Some x \<Longrightarrow> P x \<and> x \<in> set xs"
  by (induction xs) (auto split: if_splits)

lemma find_service_None_iff:
  "find (\<lambda>s. Service.code s = c) (rev svcs) = None \<longleftrightarrow> c \<notin> set (map Service.code svcs)"
  by (auto simp: find_None_iff)

lemma find_package_None_iff:
  "find (\<lambda>p. Package.code p = c) packages = None \<longleftrightarrow> c \<notin> set (map Package.code packages)"
  by (auto simp: find_None_iff)

lemma resolve_code_None_iff:
  "resolve_code svcs packages c = None \<longleftrightarrow> \<not> matched svcs packages c"
proof (cases "find (\<lambda>s. Service.code s = c) (rev svcs)")
  case None
  then show ?thesis
    using find_package_None_iff [of c packages] find_service_None_iff [of c svcs]
    by (cases "find (\<lambda>p. Package.code p = c) packages")
      (simp_all add: resolve_code_def matched_def)
next
  case (Some s)
  then show ?thesis
    using find_service_None_iff [of c svcs] by (simp add: resolve_code_def matched_def)
qed

lemma map_filter_resolve:
  "List.map_filter (resolve_code svcs packages) cs =
     map (\<lambda>c. the (resolve_code svcs packages c)) (filter (matched svcs packages) cs)"
  by (simp add: List.map_filter_def resolve_code_None_iff comp_def)

lemma map_resolved:
  assumes "\<And>c. matched svcs packages c \<Longrightarrow> g (the (resolve_code svcs packages c)) = h c"
  shows "map g (List.map_filter (resolve_code svcs packages) cs) =
           map h (filter (matched svcs packages) cs)"
  unfolding map_filter_resolve using assms by (simp add: comp_def)

lemma resolved_cases:
  assumes "matched svcs packages c"
  obtains s where "find (\<lambda>s. Service.code s = c) (rev svcs) = Some s"
      and "c \<in> set (map Service.code svcs)"
      and "resolve_code svcs packages c =
             Some [(''code'', PyStr c), (''name'', PyStr (Service.name s)),
                   (''price'', PyFloat (Service.price_single s))]"
    | pkg where "find (\<lambda>s. Service.code s = c) (rev svcs) = None"
      and "c \<notin> set (map Service.code svcs)"
      and "find (\<lambda>p. Package.code p = c) packages = Some pkg"
      and "resolve_code svcs packages c =
             Some [(''code'', PyStr c), (''name'', PyStr (Package.title pkg)),
                   (''price'', PyFloat (Package.price_single pkg)), (''package'', PyBool True)]"
proof (cases "find (\<lambda>s. Service.code s = c) (rev svcs)")
  case (Some s)
  then have "c \<in> set (map Service.code svcs)"
    using find_service_None_iff [of c svcs] by simp
  with Some that(1) show ?thesis by (simp add: resolve_code_def)
next
  case None
  then have notin: "c \<notin> set (map Service.code svcs)"
    using find_service_None_iff [of c svcs] by simp
  with assms have "c \<in> set (map Package.code packages)" by (simp add: matched_def)
  then obtain pkg where "find (\<lambda>p. Package.code p = c) packages = Some pkg"
    using find_package_None_iff [of c packages]
    by (cases "find (\<lambda>p. Package.code p = c) packages") simp_all
  with None notin that(2) show ?thesis by (simp add: resolve_code_def)
qed

lemma filter_matched_idem:
  "List.map_filter (resolve_code svcs packages) (filter (matched svcs packages) cs) =
     List.map_filter (resolve_code svcs packages) cs"
  by (simp add: map_filter_resolve)

lemma calculate_price_cong:
  assumes "List.map_filter (resolve_code svcs packages) (selected_codes payload) =
           List.map_filter (resolve_code svcs' packages') (selected_codes payload')"
    and "sessions payload = sessions payload'"
  shows "calculate_price svcs packages payload = calculate_price svcs' packages' payload'"
  by (simp add: calculate_price_alt assms)

lemma fin_round_zero: "fin_round 0 = Finite 0"
  using pow2_pos [of 1024] by (simp add: fin_round_def rnd_0 not_le)

lemma calculate_price_empty:
  "calculate_price svcs packages \<lparr>selected_codes = [], sessions = n\<rparr> =
     Inr \<lparr>items = [], subtotal = Finite 0,
          promo_label = (if n = 8 then Some ''6 + 2 gratis'' else None), total = Finite 0\<rparr>"
  by (simp add: calculate_price_alt List.map_filter_simps raw_sum_Nil fin_round_zero
      py_round2_zero Let_def del: py_round2.simps)

lemma nonexistent_unmatched:
  "\<not> matched DEFAULT_SERVICES DEFAULT_PACKAGES ''__nonexistent__''"
  by (simp add: matched_def DEFAULT_SERVICES_def DEFAULT_PACKAGES_def mk_service_def)

text \<open>
  Claim C4. The calculator returns a result for every catalog and every request (it
  never raises); the selected codes that match neither a service code nor a package
  code contribute nothing: the result is the one for the request with those codes
  removed. The empty selection gives no items and a zero subtotal and total, and so
  does the single unknown code \<open>__nonexistent__\<close> on the default catalog.
\<close>

theorem C4_unmatched_dropped:
  "(\<exists>r. calculate_price svcs packages payload = Inr r) \<and>
   calculate_price svcs packages
     (payload\<lparr>selected_codes := filter (matched svcs packages) (selected_codes payload)\<rparr>) =
     calculate_price svcs packages payload \<and>
   calculate_price svcs packages \<lparr>selected_codes = [], sessions = n\<rparr> =
     Inr \<lparr>items = [], subtotal = Finite 0,
          promo_label = (if n = 8 then Some ''6 + 2 gratis'' else None), total = Finite 0\<rparr> \<and>
   calculate_price DEFAULT_SERVICES DEFAULT_PACKAGES
       \<lparr>selected_codes = [''__nonexistent__''], sessions = 1\<rparr> =
     Inr \<lparr>items = [], subtotal = Finite 0, promo_label = None, total = Finite 0\<rparr>"
proof (intro conjI)
  show "\<exists>r. calculate_price svcs packages payload = Inr r"
    using calculate_price_items [of svcs packages payload] by blast
  show "calculate_price svcs packages
     (payload\<lparr>selected_codes := filter (matched svcs packages) (selected_codes payload)\<rparr>) =
     calculate_price svcs packages payload"
    by (rule calculate_price_cong) (simp_all add: filter_matched_idem)
  show "calculate_price svcs packages \<lparr>selected_codes = [], sessions = n\<rparr> =
     Inr \<lparr>items = [], subtotal = Finite 0,
          promo_label = (if n = 8 then Some ''6 + 2 gratis'' else None), total = Finite 0\<rparr>"
    by (rule calculate_price_empty)
  have "resolve_code DEFAULT_SERVICES DEFAULT_PACKAGES ''__nonexistent__'' = None"
    by (rule iffD2 [OF resolve_code_None_iff nonexistent_unmatched])
  then have "calculate_price DEFAULT_SERVICES DEFAULT_PACKAGES
       \<lparr>selected_codes = [''__nonexistent__''], sessions = 1\<rparr> =
     calculate_price DEFAULT_SERVICES DEFAULT_PACKAGES \<lparr>selected_codes = [], sessions = 1\<rparr>"
    by (intro calculate_price_cong) (simp_all add: List.map_filter_simps)
  then show "calculate_price DEFAULT_SERVICES DEFAULT_PACKAGES
       \<lparr>selected_codes = [''__nonexistent__''], sessions = 1\<rparr> =
     Inr \<lparr>items = [], subtotal = Finite 0, promo_label = None, total = Finite 0\<rparr>"
    by (simp add: calculate_price_empty)
qed

lemma resolved_code_key:
  "map (\<lambda>it. map_of it ''code'') (List.map_filter (resolve_code svcs packages) cs) =
     map (\<lambda>c. Some (PyStr c)) (filter (matched svcs packages) cs)"
proof (rule map_resolved)
  fix c assume "matched svcs packages c"
  then show "map_of (the (resolve_code svcs packages c)) ''code'' = Some (PyStr c)"
    by (cases rule: resolved_cases) simp_all
qed

lemma resolved_price_key:
  "map (\<lambda>it. map_of it ''price'') (List.map_filter (resolve_code svcs packages) cs) =
     map (\<lambda>p. Some (PyFloat p)) (item_prices (List.map_filter (resolve_code svcs packages) cs))"
proof (induction cs)
  case Nil
  then show ?case by (simp add: List.map_filter_simps item_prices_Nil)
next
  case (Cons c cs)
  show ?case
  proof (cases "matched svcs packages c")
    case True
    then show ?thesis
      by (cases rule: resolved_cases)
        (simp_all add: List.map_filter_simps item_prices_Cons_price Cons.IH)
  next
    case False
    then have "resolve_code svcs packages c = None" by (simp add: resolve_code_None_iff)
    then show ?thesis by (simp add: List.map_filter_simps Cons.IH)
  qed
qed

lemma resolved_package_key:
  "map (\<lambda>it. (map_of it ''code'', map_of it ''package'', map_of it ''is_package''))
       (List.map_filter (resolve_code svcs packages) cs) =
     map (\<lambda>c. (Some (PyStr c),
                if c \<in> set (map Service.code svcs) then None else Some (PyBool True), None))
       (filter (matched svcs packages) cs)"
proof (rule map_resolved)
  fix c assume "matched svcs packages c"
  then show "(map_of (the (resolve_code svcs packages c)) ''code'',
              map_of (the (resolve_code svcs packages c)) ''package'',
              map_of (the (resolve_code svcs packages c)) ''is_package'') =
             (Some (PyStr c),
              if c \<in> set (map Service.code svcs) then None else Some (PyBool True), None)"
    by (cases rule: resolved_cases) simp_all
qed

lemma resolve_FB_STD:
  "resolve_code DEFAULT_SERVICES DEFAULT_PACKAGES ''FB-STD'' =
     Some [(''code'', PyStr ''FB-STD''), (''name'', PyStr ''Full body''),
           (''price'', PyFloat (Finite 279)), (''package'', PyBool True)]"
  by (simp add: resolve_code_def DEFAULT_SERVICES_def DEFAULT_PACKAGES_def mk_service_def)

lemma fadd_0_279: "fadd (Finite 0) (Finite 279) = Finite 279"
  by code_simp

lemma py_round2_279: "py_round2 (Finite 279) = Inr (Finite 279)"
  by code_simp

text \<open>
  Claim C6, as stated, fails: the line item of the package \<open>FB-STD\<close> on the default
  catalog has no key \<open>is_package\<close>; the source writes the mark under the key
  \<open>package\<close>.
\<close>

theorem C6_is_package_counterexample:
  "calculate_price DEFAULT_SERVICES DEFAULT_PACKAGES
       \<lparr>selected_codes = [''FB-STD''], sessions = 1\<rparr> =
     Inr \<lparr>items = [[(''code'', PyStr ''FB-STD''), (''name'', PyStr ''Full body''),
                     (''price'', PyFloat (Finite 279)), (''package'', PyBool True)]],
          subtotal = Finite 279, promo_label = None, total = Finite 279\<rparr> \<and>
   map_of [(''code'', PyStr ''FB-STD''), (''name'', PyStr ''Full body''),
           (''price'', PyFloat (Finite 279)), (''package'', PyBool True)] ''is_package'' = None"
  by (simp add: calculate_price_alt List.map_filter_simps resolve_FB_STD raw_sum_def
      item_prices_Cons_price item_prices_Nil fadd_0_279 py_round2_279 Let_def
      del: fadd.simps py_round2.simps)

text \<open>
  Claim C6, amended. The line items are, in order, those of the matched selected
  codes; the item of a code that is not a service code (a package item) carries
  the key \<open>package\<close> with the value \<open>True\<close>, the item of a service code has no key
  \<open>package\<close>, and no item has a key \<open>is_package\<close>.
\<close>

theorem C6_package_key:
  "\<exists>r. calculate_price svcs packages payload = Inr r \<and>
       map (\<lambda>it. (map_of it ''code'', map_of it ''package'', map_of it ''is_package'')) (items r) =
         map (\<lambda>c. (Some (PyStr c),
                    if c \<in> set (map Service.code svcs) then None else Some (PyBool True), None))
           (filter (matched svcs packages) (selected_codes payload))"
proof -
  obtain r where r: "calculate_price svcs packages payload = Inr r"
    "items r = List.map_filter (resolve_code svcs packages) (selected_codes payload)"
    using calculate_price_items [of svcs packages payload] by blast
  have "map (\<lambda>it. (map_of it ''code'', map_of it ''package'', map_of it ''is_package'')) (items r) =
         map (\<lambda>c. (Some (PyStr c),
                    if c \<in> set (map Service.code svcs) then None else Some (PyBool True), None))
           (filter (matched svcs packages) (selected_codes payload))"
    unfolding r(2) by (rule resolved_package_key)
  with r(1) show ?thesis by blast
qed

lemma find_package_update:
  "find (\<lambda>p. Package.code p = c) (map (\<lambda>p. p\<lparr>promo_6_plus_2 := flag p\<rparr>) packages) =
     map_option (\<lambda>p. p\<lparr>promo_6_plus_2 := flag p\<rparr>) (find (\<lambda>p. Package.code p = c) packages)"
  by (induction packages) simp_all

lemma resolve_code_promo:
  "resolve_code svcs (map (\<lambda>p. p\<lparr>promo_6_plus_2 := flag p\<rparr>) packages) c =
     resolve_code svcs packages c"
  by (simp add: resolve_code_def find_package_update split: option.splits)

text \<open>\<open>rnd d\<close> is at least as close to \<open>d\<close> as any multiple of the unit in the last place.\<close>

lemma rnd_nearest_grid:
  "\<bar>rnd d - d\<bar> \<le> \<bar>of_int k * pow2 (ulp_exp d) - d\<bar>"
proof (cases "d = 0")
  case True
  then show ?thesis by (simp add: rnd_0)
next
  case False
  let ?u = "pow2 (ulp_exp d)"
  have u: "0 < ?u" by (rule pow2_pos)
  have "\<bar>of_int (round_half_even (d / ?u)) - d / ?u\<bar> \<le> \<bar>of_int k - d / ?u\<bar>"
    by (rule rhe_nearest)
  then have "\<bar>of_int (round_half_even (d / ?u)) - d / ?u\<bar> * ?u \<le> \<bar>of_int k - d / ?u\<bar> * ?u"
    using u by (simp add: mult_right_mono)
  moreover have "\<bar>of_int j - d / ?u\<bar> * ?u = \<bar>of_int j * ?u - d\<bar>" for j
  proof -
    have "\<bar>of_int j - d / ?u\<bar> * ?u = \<bar>(of_int j - d / ?u) * ?u\<bar>"
      using u by (simp add: abs_mult)
    also have "(of_int j - d / ?u) * ?u = of_int j * ?u - d"
      using u by (simp add: field_simps)
    finally show ?thesis .
  qed
  ultimately show ?thesis using False by (simp add: rnd_def)
qed

lemma rnd_nearest_pos: "\<bar>rnd d - d\<bar> \<le> \<bar>f - d\<bar>" if "rnd f = f" and "0 < d"
proof -
  let ?e = "ulp_exp d"
  have "\<exists>k. \<bar>of_int k * pow2 ?e - d\<bar> \<le> \<bar>f - d\<bar>"
  proof (cases "0 < f")
    case False
    with that(2) have "\<bar>of_int 0 * pow2 ?e - d\<bar> \<le> \<bar>f - d\<bar>" by simp
    then show ?thesis ..
  next
    case fpos: True
    show ?thesis
    proof (cases "?e \<le> ulp_exp f")
      case True
      have "f = of_int (round_half_even (f / pow2 (ulp_exp f))) * pow2 (ulp_exp f)"
        using that(1) fpos by (simp add: rnd_def)
      moreover have "pow2 (ulp_exp f) = pow2 (ulp_exp f - ?e) * pow2 ?e"
        using pow2_add [of "ulp_exp f - ?e" ?e] by simp
      moreover have "pow2 (ulp_exp f - ?e) = of_int (2 ^ nat (ulp_exp f - ?e))"
        using True by (simp add: pow2_nat)
      ultimately have
        "f = of_int (round_half_even (f / pow2 (ulp_exp f)) * 2 ^ nat (ulp_exp f - ?e)) * pow2 ?e"
        by simp
      then have "\<bar>of_int (round_half_even (f / pow2 (ulp_exp f)) * 2 ^ nat (ulp_exp f - ?e))
                   * pow2 ?e - d\<bar> \<le> \<bar>f - d\<bar>"
        by simp
      then show ?thesis ..
    next
      case False
      with ulp_exp_ge [of f] have e: "?e = flog2 d - 52" and "flog2 f + 1 \<le> ?e + 52"
        using that(2) fpos by (simp_all add: ulp_exp_def split: if_splits)
      then have "pow2 (flog2 f + 1) \<le> pow2 (?e + 52)" by (intro pow2_mono)
      with flog2_bounds(2) [OF fpos] have "f < pow2 (?e + 52)" by linarith
      moreover have "pow2 (?e + 52) \<le> d"
        using flog2_bounds(1) [OF that(2)] e by simp
      moreover have "pow2 (?e + 52) = of_int (2 ^ 52) * pow2 ?e"
        using pow2_add [of 52 ?e] by (simp add: pow2_def add.commute)
      ultimately have "\<bar>of_int (2 ^ 52) * pow2 ?e - d\<bar> \<le> \<bar>f - d\<bar>" by linarith
      then show ?thesis ..
    qed
  qed
  then obtain k where "\<bar>of_int k * pow2 ?e - d\<bar> \<le> \<bar>f - d\<bar>" ..
  with rnd_nearest_grid [of d k] show ?thesis by linarith
qed

lemma rnd_nearest: "\<bar>rnd d - d\<bar> \<le> \<bar>f - d\<bar>" if "rnd f = f"
proof -
  consider "0 < d" | "d = 0" | "d < 0" by linarith
  then show ?thesis
  proof cases
    case 1
    with that show ?thesis by (rule rnd_nearest_pos)
  next
    case 2
    then show ?thesis by (simp add: rnd_0)
  next
    case 3
    from that have "rnd (- f) = - f" by (simp add: rnd_neg)
    from rnd_nearest_pos [OF this, of "- d"] 3 show ?thesis
      by (simp add: rnd_neg)
  qed
qed

text \<open>Rounding to 2 places a float that is already the result of such a rounding keeps it.\<close>

lemma round2_idem:
  assumes "rnd x = x"
  shows "round_half_even (100 * rnd (of_int (round_half_even (100 * x)) / 100)) =
           round_half_even (100 * x)"
proof -
  let ?n = "round_half_even (100 * x)"
  let ?d = "of_int ?n / 100 :: rat"
  let ?y = "rnd ?d"
  have "\<bar>?y - ?d\<bar> \<le> \<bar>x - ?d\<bar>" using assms by (rule rnd_nearest)
  then have le: "\<bar>of_int ?n - 100 * ?y\<bar> \<le> \<bar>of_int ?n - 100 * x\<bar>" by simp
  have half: "\<bar>of_int ?n - 100 * x\<bar> \<le> 1 / 2"
    using rhe_lower [of "100 * x"] rhe_upper [of "100 * x"] by linarith
  show ?thesis
  proof (cases "\<bar>of_int ?n - 100 * ?y\<bar> < 1 / 2")
    case True
    then show ?thesis by (rule rhe_eqI_strict)
  next
    case False
    with le half have tie: "\<bar>of_int ?n - 100 * ?y\<bar> = 1 / 2" "\<bar>of_int ?n - 100 * x\<bar> = 1 / 2"
      by linarith+
    from tie(2) have "even ?n" by (rule rhe_tie_even)
    with tie(1) show ?thesis by (rule rhe_eqI_tie)
  qed
qed

lemma py_round2_idem: "py_round2 b = Inr b" if "is_double a" and "py_round2 a = Inr b"
proof (cases a)
  case (Finite x)
  with that(1) have x: "rnd x = x" by simp
  let ?y = "rnd (of_int (round_half_even (100 * x)) / 100)"
  from that(2) Finite have b: "b = Finite ?y" and r: "\<not> pow2 1024 \<le> \<bar>?y\<bar>"
    by (simp_all add: Let_def split: if_splits)
  have "rnd (of_int (round_half_even (100 * ?y)) / 100) = ?y"
    by (simp only: round2_idem [OF x])
  with r show ?thesis by (simp add: b Let_def)
qed (use that in simp_all)

lemma calculate_price_promo_total:
  fixes svcs :: "Service list" and packages :: "Package list" and payload :: PriceCalcRequest
  assumes "sessions payload = 8"
  defines "its \<equiv> List.map_filter (resolve_code svcs packages) (selected_codes payload)"
  shows "\<exists>t rs. py_round2 (fmul (raw_sum its) (Finite (3 / 4))) = Inr t \<and>
           py_round2 (raw_sum its) = Inr rs \<and>
           calculate_price svcs packages payload =
             Inr \<lparr>items = its, subtotal = rs, promo_label = Some ''6 + 2 gratis'', total = t\<rparr>"
proof -
  from calculate_price_promo [OF assms(1), of svcs packages]
  obtain t rs rt where *: "py_round2 (fmul (raw_sum its) (Finite (3 / 4))) = Inr t"
    "py_round2 (raw_sum its) = Inr rs" "py_round2 t = Inr rt"
    "calculate_price svcs packages payload =
       Inr \<lparr>items = its, subtotal = rs, promo_label = Some ''6 + 2 gratis'', total = rt\<rparr>"
    unfolding its_def by blast
  from py_round2_idem [OF is_double_fmul *(1)] *(3) have "rt = t" by simp
  with * show ?thesis by blast
qed

lemma fin_round_nonneg: "fle (Finite 0) (fin_round x)" if "0 \<le> x"
  using rnd_nonneg [OF that] pow2_pos [of 1024] by (simp add: fin_round_def Let_def)

lemma fadd_nonneg: "fle (Finite 0) (fadd a b)" if "fle (Finite 0) a" and "fle (Finite 0) b"
  using that by (cases a; cases b) (simp_all add: fin_round_nonneg)

lemma foldl_fadd_nonneg:
  "fle (Finite 0) (foldl fadd a ps)" if "fle (Finite 0) a" and "\<forall>p \<in> set ps. fle (Finite 0) p"
  using that by (induction ps arbitrary: a) (simp_all add: fadd_nonneg)

lemma resolved_prices_subset:
  "set (item_prices (List.map_filter (resolve_code svcs packages) cs)) \<subseteq>
     Service.price_single ` set svcs \<union> Package.price_single ` set packages"
proof (induction cs)
  case Nil
  then show ?case by (simp add: List.map_filter_simps item_prices_Nil)
next
  case (Cons c cs)
  show ?case
  proof (cases "matched svcs packages c")
    case True
    then show ?thesis
    proof (cases rule: resolved_cases)
      case (1 s)
      from find_SomeD [OF 1(1)] have "s \<in> set svcs" by simp
      with 1(3) Cons.IH show ?thesis
        by (simp add: List.map_filter_simps item_prices_Cons_price)
    next
      case (2 pkg)
      from find_SomeD [OF 2(3)] have "pkg \<in> set packages" by simp
      with 2(4) Cons.IH show ?thesis
        by (simp add: List.map_filter_simps item_prices_Cons_price)
    qed
  next
    case False
    then have "resolve_code svcs packages c = None" by (simp add: resolve_code_None_iff)
    with Cons.IH show ?thesis by (simp add: List.map_filter_simps)
  qed
qed

lemma fmul_three_quarters:
  assumes "is_double a" and "fle (Finite 0) a"
  shows "fle (Finite 0) (fmul a (Finite (3 / 4)))" and "fle (fmul a (Finite (3 / 4))) a"
proof -
  have "fle (Finite 0) (fmul a (Finite (3 / 4))) \<and> fle (fmul a (Finite (3 / 4))) a"
  proof (cases a)
    case (Finite x)
    with assms have x: "0 \<le> x" "rnd x = x" "\<bar>x\<bar> < pow2 1024" by simp_all
    have lo: "0 \<le> rnd (x * (3 / 4))" using x(1) by (intro rnd_nonneg) simp
    have "rnd (x * (3 / 4)) \<le> rnd x" using x(1) by (intro rnd_mono) simp
    with x(2) have hi: "rnd (x * (3 / 4)) \<le> x" by simp
    with lo x(3) have "\<not> pow2 1024 \<le> \<bar>rnd (x * (3 / 4))\<bar>" by linarith
    with lo hi show ?thesis by (simp add: Finite fin_round_def Let_def)
  qed (use assms in simp_all)
  then show "fle (Finite 0) (fmul a (Finite (3 / 4)))" and "fle (fmul a (Finite (3 / 4))) a"
    by simp_all
qed

lemma py_round2_mono:
  assumes "fle a b" and "py_round2 a = Inr a'" and "py_round2 b = Inr b'"
  shows "fle a' b'"
proof (cases a)
  case a: (Finite x)
  show ?thesis
  proof (cases b)
    case b: (Finite y)
    from assms(1) a b have "100 * x \<le> 100 * y" by simp
    then have "round_half_even (100 * x) \<le> round_half_even (100 * y)" by (rule rhe_mono)
    then have "(of_int (round_half_even (100 * x)) / 100 :: rat) \<le>
        of_int (round_half_even (100 * y)) / 100"
      by simp
    then have "rnd (of_int (round_half_even (100 * x)) / 100) \<le>
        rnd (of_int (round_half_even (100 * y)) / 100)"
      by (rule rnd_mono)
    with assms(2,3) a b show ?thesis by (auto simp: Let_def split: if_splits)
  qed (use assms a in \<open>auto simp: Let_def split: if_splits\<close>)
next
  case PInf
  with assms show ?thesis by (cases b) auto
next
  case NInf
  with assms show ?thesis by (cases b) (auto simp: Let_def split: if_splits)
next
  case NaN
  with assms show ?thesis by simp
qed

text \<open>
  Claim C10. When every service and every package of the catalog has a non-negative
  single price, the calculator returns a result with 0 <= total <= subtotal (in the
  order of Python floats), for every request.
\<close>

theorem C10_total_bounds:
  assumes "\<forall>s \<in> set svcs. fle (Finite 0) (Service.price_single s)"
    and "\<forall>p \<in> set packages. fle (Finite 0) (Package.price_single p)"
  shows "\<exists>r. calculate_price svcs packages payload = Inr r \<and>
           fle (Finite 0) (total r) \<and> fle (total r) (subtotal r) \<and> fle (Finite 0) (subtotal r)"
proof -
  let ?its = "List.map_filter (resolve_code svcs packages) (selected_codes payload)"
  have "\<forall>p \<in> set (item_prices ?its). fle (Finite 0) p"
    using resolved_prices_subset [of svcs packages "selected_codes payload"] assms by auto
  then have raw: "fle (Finite 0) (raw_sum ?its)"
    unfolding raw_sum_def by (intro foldl_fadd_nonneg) simp_all
  show ?thesis
  proof (cases "sessions payload = 8")
    case True
    from calculate_price_promo_total [OF True, of svcs packages]
    obtain t rs where *: "py_round2 (fmul (raw_sum ?its) (Finite (3 / 4))) = Inr t"
      "py_round2 (raw_sum ?its) = Inr rs"
      "calculate_price svcs packages payload =
         Inr \<lparr>items = ?its, subtotal = rs, promo_label = Some ''6 + 2 gratis'', total = t\<rparr>"
      by blast
    note m = fmul_three_quarters [OF is_double_raw_sum raw]
    have "fle (Finite 0) t" by (rule py_round2_mono [OF m(1) py_round2_zero *(1)])
    moreover have "fle t rs" by (rule py_round2_mono [OF m(2) *(1) *(2)])
    moreover have "fle (Finite 0) rs" by (rule py_round2_mono [OF raw py_round2_zero *(2)])
    ultimately show ?thesis using *(3) by simp
  next
    case False
    from calculate_price_plain [OF False, of svcs packages]
    obtain rs where *: "py_round2 (raw_sum ?its) = Inr rs"
      "calculate_price svcs packages payload =
         Inr \<lparr>items = ?its, subtotal = rs, promo_label = None, total = rs\<rparr>"
      by blast
    have nn: "fle (Finite 0) rs" by (rule py_round2_mono [OF raw py_round2_zero *(1)])
    then have "fle rs rs" by (cases rs) simp_all
    with nn *(2) show ?thesis by simp
  qed
qed

text \<open>Whole numbers and quarters of moderate size are computed exactly.\<close>

lemma rnd_int: "rnd (of_int k) = of_int k" if "\<bar>k\<bar> \<le> 2 ^ 53"
  using rnd_fixI [of 0 k] that by (simp add: pow2_def)

lemma rnd_quarter: "rnd (of_int j / 4) = of_int j / 4" if "\<bar>j\<bar> \<le> 2 ^ 53"
  using rnd_fixI [of "- 2" j] that by (simp add: pow2_def)

lemma pow2_1024_gt: "x < pow2 1024" if "x \<le> 2 ^ 53"
proof -
  have "(2::rat) ^ 53 = pow2 53" by (simp add: pow2_def)
  also have "\<dots> < pow2 1024" by (simp add: pow2_less_iff)
  finally show ?thesis using that by linarith
qed

lemma fin_round_int: "fin_round (of_int k) = Finite (of_int k)" if "\<bar>k\<bar> \<le> 2 ^ 53"
proof -
  have "\<bar>of_int k :: rat\<bar> \<le> 2 ^ 53"
    using that by (metis of_int_abs of_int_le_iff of_int_numeral of_int_power)
  then have "\<bar>of_int k :: rat\<bar> < pow2 1024" by (rule pow2_1024_gt)
  then show ?thesis by (simp add: fin_round_def rnd_int [OF that] Let_def)
qed

lemma fin_round_quarter: "fin_round (of_int j / 4) = Finite (of_int j / 4)" if "\<bar>j\<bar> \<le> 2 ^ 53"
proof -
  have "\<bar>of_int j :: rat\<bar> \<le> 2 ^ 53"
    using that by (metis of_int_abs of_int_le_iff of_int_numeral of_int_power)
  then have "\<bar>of_int j / 4 :: rat\<bar> \<le> 2 ^ 53" by simp
  then have "\<bar>of_int j / 4 :: rat\<bar> < pow2 1024" by (rule pow2_1024_gt)
  then show ?thesis by (simp add: fin_round_def rnd_quarter [OF that] Let_def)
qed

lemma py_round2_int: "py_round2 (Finite (of_int k)) = Inr (Finite (of_int k))" if "\<bar>k\<bar> \<le> 2 ^ 53"
proof -
  have "100 * (of_int k :: rat) = of_int (100 * k)" by simp
  then have "round_half_even (100 * of_int k) = 100 * k" by (simp only: rhe_of_int)
  then have "rnd (of_int (round_half_even (100 * of_int k)) / 100) = of_int k"
    by (simp add: rnd_int [OF that])
  moreover have "\<bar>of_int k :: rat\<bar> < pow2 1024"
    using that by (intro pow2_1024_gt) (metis of_int_abs of_int_le_iff of_int_numeral of_int_power)
  ultimately show ?thesis by (simp add: Let_def)
qed

lemma py_round2_quarter:
  "py_round2 (Finite (of_int j / 4)) = Inr (Finite (of_int j / 4))" if "\<bar>j\<bar> \<le> 2 ^ 53"
proof -
  have "100 * (of_int j / 4 :: rat) = of_int (25 * j)" by simp
  then have "round_half_even (100 * (of_int j / 4)) = 25 * j" by (simp only: rhe_of_int)
  then have "rnd (of_int (round_half_even (100 * (of_int j / 4))) / 100) = of_int j / 4"
    by (simp add: rnd_quarter [OF that])
  moreover have "\<bar>of_int j / 4 :: rat\<bar> < pow2 1024"
  proof (rule pow2_1024_gt)
    have "\<bar>of_int j :: rat\<bar> \<le> 2 ^ 53"
      using that by (metis of_int_abs of_int_le_iff of_int_numeral of_int_power)
    then show "\<bar>of_int j / 4 :: rat\<bar> \<le> 2 ^ 53" by simp
  qed
  ultimately show ?thesis by (simp add: Let_def)
qed

lemma foldl_fadd_ints:
  assumes "\<forall>k \<in> set ks. 0 \<le> k" and "0 \<le> a" and "a + sum_list ks \<le> 2 ^ 53"
  shows "foldl fadd (Finite (of_int a)) (map (\<lambda>k. Finite (of_int k)) ks) =
           Finite (of_int (a + sum_list ks))"
  using assms
proof (induction ks arbitrary: a)
  case Nil
  then show ?case by simp
next
  case (Cons k ks)
  from Cons.prems have k: "0 \<le> k" and rest: "\<forall>k \<in> set ks. 0 \<le> k" by simp_all
  from rest have "0 \<le> sum_list ks" by (simp add: sum_list_nonneg)
  with Cons.prems k have "\<bar>a + k\<bar> \<le> 2 ^ 53" by simp
  then have "fadd (Finite (of_int a)) (Finite (of_int k)) = Finite (of_int (a + k))"
    using fin_round_int [of "a + k"] by simp
  moreover have "foldl fadd (Finite (of_int (a + k))) (map (\<lambda>k. Finite (of_int k)) ks) =
      Finite (of_int (a + k + sum_list ks))"
    using Cons.prems k rest by (intro Cons.IH) (simp_all add: add.assoc)
  ultimately show ?case by (simp add: add.assoc del: fadd.simps)
qed

lemma raw_sum_ints:
  assumes "item_prices its = map (\<lambda>k. Finite (of_int k)) ks"
    and "\<forall>k \<in> set ks. 0 \<le> k" and "sum_list ks \<le> 2 ^ 53"
  shows "raw_sum its = Finite (of_int (sum_list ks))"
  using foldl_fadd_ints [of ks 0] assms by (simp add: raw_sum_def)

text \<open>In the normal range, rounding to binary64 has a relative error of at most \<open>2 ^ - 53\<close>.\<close>

lemma rnd_rel_err_pos: "\<bar>rnd d - d\<bar> \<le> \<bar>rnd d\<bar> / 2 ^ 53" if "pow2 (- 1022) \<le> d"
proof -
  have dpos: "0 < d" using that pow2_pos [of "- 1022"] by linarith
  have "flog2 (pow2 (- 1022)) \<le> flog2 d" using that pow2_pos [of "- 1022"] by (intro flog2_mono)
  moreover have "flog2 (pow2 (- 1022)) = - 1022"
    by (rule flog2_unique) (simp_all add: pow2_less_iff)
  ultimately have e: "ulp_exp d = flog2 d - 52" using dpos by (simp add: ulp_exp_def)
  let ?u = "pow2 (ulp_exp d)"
  let ?m = "round_half_even (d / ?u)"
  have u: "0 < ?u" by (rule pow2_pos)
  have "pow2 (flog2 d) = pow2 52 * ?u" using pow2_add [of 52 "ulp_exp d"] e by simp
  with flog2_bounds(1) [OF dpos] have "pow2 52 * ?u \<le> d" by simp
  then have "of_int (2 ^ 52) \<le> d / ?u" using u by (simp add: pos_le_divide_eq pow2_def)
  from rhe_mono [OF this] have "2 ^ 52 \<le> ?m" by (simp only: rhe_of_int)
  then have m: "(2 ^ 52 :: rat) \<le> of_int ?m"
    by (metis of_int_le_iff of_int_numeral of_int_power)
  have r: "rnd d = of_int ?m * ?u" using dpos by (simp add: rnd_def)
  have "\<bar>of_int ?m - d / ?u\<bar> \<le> 1 / 2"
    using rhe_lower [of "d / ?u"] rhe_upper [of "d / ?u"] by linarith
  then have "\<bar>of_int ?m - d / ?u\<bar> * ?u \<le> 1 / 2 * ?u" using u by (simp add: mult_right_mono)
  moreover have "\<bar>of_int ?m - d / ?u\<bar> * ?u = \<bar>of_int ?m * ?u - d\<bar>"
  proof -
    have "\<bar>of_int ?m - d / ?u\<bar> * ?u = \<bar>(of_int ?m - d / ?u) * ?u\<bar>"
      using u by (simp add: abs_mult)
    also have "(of_int ?m - d / ?u) * ?u = of_int ?m * ?u - d" using u by (simp add: field_simps)
    finally show ?thesis .
  qed
  ultimately have err: "\<bar>rnd d - d\<bar> \<le> ?u / 2" by (simp add: r)
  have "2 ^ 52 * ?u \<le> of_int ?m * ?u" using m u by (simp add: mult_right_mono)
  then have "?u / 2 \<le> (of_int ?m * ?u) / 2 ^ 53" by simp
  moreover have "0 \<le> of_int ?m * ?u" using m u by simp
  ultimately show ?thesis using err by (simp add: r)
qed

lemma rnd_rel_err: "\<bar>rnd d - d\<bar> \<le> \<bar>rnd d\<bar> / 2 ^ 53" if "pow2 (- 1022) \<le> \<bar>d\<bar>"
proof (cases "0 \<le> d")
  case True
  with that show ?thesis by (intro rnd_rel_err_pos) simp
next
  case False
  with that have "\<bar>rnd (- d) - (- d)\<bar> \<le> \<bar>rnd (- d)\<bar> / 2 ^ 53" by (intro rnd_rel_err_pos) simp
  moreover have "\<bar>- rnd d - (- d)\<bar> = \<bar>rnd d - d\<bar>" by linarith
  ultimately show ?thesis by (simp only: rnd_neg abs_minus_cancel)
qed

text \<open>
  What \<open>round(x, 2)\<close> returns, without reference to its algorithm: a float within a
  relative \<open>2 ^ - 53\<close> of a whole number of hundredths, that number being nearest to
  \<open>100 x\<close>.
\<close>

lemma py_round2_spec:
  assumes "py_round2 (Finite s) = Inr b"
  shows "\<exists>n y. b = Finite y \<and> \<bar>of_int n - 100 * s\<bar> \<le> 1 / 2 \<and>
           \<bar>y - of_int n / 100\<bar> \<le> \<bar>y\<bar> / 2 ^ 53"
proof -
  let ?n = "round_half_even (100 * s)"
  let ?d = "of_int ?n / 100 :: rat"
  from assms have b: "b = Finite (rnd ?d)" by (simp add: Let_def split: if_splits)
  have n: "\<bar>of_int ?n - 100 * s\<bar> \<le> 1 / 2"
    using rhe_lower [of "100 * s"] rhe_upper [of "100 * s"] by linarith
  have "\<bar>rnd ?d - ?d\<bar> \<le> \<bar>rnd ?d\<bar> / 2 ^ 53"
  proof (cases "?n = 0")
    case True
    then show ?thesis by (simp add: rnd_0)
  next
    case False
    then have "1 \<le> \<bar>?n\<bar>" by simp
    then have "(1::rat) \<le> \<bar>of_int ?n\<bar>" by (metis of_int_1 of_int_abs of_int_le_iff)
    then have "(1 / 100 :: rat) \<le> \<bar>?d\<bar>" by simp
    moreover have "pow2 (- 1022) \<le> pow2 (- 7)" by (intro pow2_mono) simp
    moreover have "pow2 (- 7) \<le> 1 / 100" by (simp add: pow2_def)
    ultimately have "pow2 (- 1022) \<le> \<bar>?d\<bar>" by linarith
    then show ?thesis by (rule rnd_rel_err)
  qed
  with b n show ?thesis by blast
qed

lemma cent_services_double:
  "rnd (995 / 100) = 2800676018271027 / 281474976710656"
  "rnd (3995 / 100) = 2811231329897677 / 70368744177664"
  by code_simp+

lemma resolve_cent:
  "resolve_code cent_services [] ''A'' =
     Some [(''code'', PyStr ''A''), (''name'', PyStr ''Zone A''),
           (''price'', PyFloat (Finite (2800676018271027 / 281474976710656)))]"
  "resolve_code cent_services [] ''B'' =
     Some [(''code'', PyStr ''B''), (''name'', PyStr ''Zone B''),
           (''price'', PyFloat (Finite (2811231329897677 / 70368744177664)))]"
  by (simp_all add: resolve_code_def cent_services_def mk_service_def)

lemma cent_sum:
  "fadd (fadd (Finite 0) (Finite (2800676018271027 / 281474976710656)))
        (Finite (2811231329897677 / 70368744177664)) =
     Finite (1755700167232717 / 35184372088832)"
  by code_simp

lemma cent_subtotal:
  "py_round2 (Finite (1755700167232717 / 35184372088832)) =
     Inr (Finite (7022800668930867 / 140737488355328))"
  by code_simp

lemma cent_total:
  "py_round2 (fmul (Finite (1755700167232717 / 35184372088832)) (Finite (3 / 4))) =
     Inr (Finite (5267804189139927 / 140737488355328))"
  by code_simp

lemma cent_total_twice:
  "py_round2 (Finite (5267804189139927 / 140737488355328)) =
     Inr (Finite (5267804189139927 / 140737488355328))"
  by code_simp

lemma cent_from_subtotal:
  "py_round2 (fmul (Finite (7022800668930867 / 140737488355328)) (Finite (3 / 4))) =
     Inr (Finite (2633198407128187 / 70368744177664))"
  by code_simp

lemma fmul_rel_err:
  assumes "is_double (Finite s)" and "1 / 100 \<le> s"
  shows "\<exists>q. fmul (Finite s) (Finite (3 / 4)) = Finite q \<and> \<bar>q - 3 / 4 * s\<bar> \<le> \<bar>q\<bar> / 2 ^ 53"
proof -
  from assms have s: "0 \<le> s" "rnd s = s" "\<bar>s\<bar> < pow2 1024" by simp_all
  let ?q = "rnd (s * (3 / 4))"
  have lo: "0 \<le> ?q" using s(1) by (intro rnd_nonneg) simp
  have "?q \<le> rnd s" using s(1) by (intro rnd_mono) simp
  with lo s have "\<not> pow2 1024 \<le> \<bar>?q\<bar>" by linarith
  then have f: "fmul (Finite s) (Finite (3 / 4)) = Finite ?q" by (simp add: fin_round_def Let_def)
  have "pow2 (- 1022) \<le> pow2 (- 8)" by (intro pow2_mono) simp
  moreover have "pow2 (- 8) \<le> 3 / 400" by (simp add: pow2_def)
  moreover have "3 / 400 \<le> s * (3 / 4)" using assms(2) by simp
  ultimately have "pow2 (- 1022) \<le> \<bar>s * (3 / 4)\<bar>" by linarith
  from rnd_rel_err [OF this] have "\<bar>?q - 3 / 4 * s\<bar> \<le> \<bar>?q\<bar> / 2 ^ 53"
    by (simp add: mult.commute)
  with f show ?thesis by blast
qed

lemma fmul_int_quarter:
  assumes "0 \<le> k" and "k \<le> 2 ^ 51"
  shows "fmul (Finite (of_int k)) (Finite (3 / 4)) = Finite (3 * of_int k / 4)"
proof -
  from assms have "\<bar>3 * k\<bar> \<le> 2 ^ 53" by simp
  from fin_round_quarter [OF this] have "fin_round (3 * of_int k / 4) = Finite (3 * of_int k / 4)"
    by simp
  moreover have "of_int k * (3 / 4) = (3 * of_int k / 4 :: rat)" by simp
  ultimately show ?thesis by (simp only: fmul.simps)
qed

lemma py_round2_int_quarter:
  assumes "0 \<le> k" and "k \<le> 2 ^ 51"
  shows "py_round2 (Finite (3 * of_int k / 4)) = Inr (Finite (3 * of_int k / 4))"
proof -
  from assms have "\<bar>3 * k\<bar> \<le> 2 ^ 53" by simp
  from py_round2_quarter [OF this] show ?thesis by (simp del: py_round2.simps)
qed

text \<open>The calculator on a selection whose float sum is a whole number.\<close>

lemma calculate_price_int_promo:
  assumes "sessions payload = 8"
    and "raw_sum (List.map_filter (resolve_code svcs packages) (selected_codes payload)) =
           Finite (of_int k)"
    and "0 \<le> k" and "k \<le> 2 ^ 51"
  shows "calculate_price svcs packages payload =
           Inr \<lparr>items = List.map_filter (resolve_code svcs packages) (selected_codes payload),
                subtotal = Finite (of_int k), promo_label = Some ''6 + 2 gratis'',
                total = Finite (3 * of_int k / 4)\<rparr>"
proof -
  from assms(3,4) have k: "\<bar>k\<bar> \<le> 2 ^ 53" by simp
  show ?thesis
    unfolding calculate_price_alt Let_def assms(2)
    by (simp add: assms(1) fmul_int_quarter [OF assms(3,4)] py_round2_int [OF k]
        py_round2_int_quarter [OF assms(3,4)] del: py_round2.simps fmul.simps)
qed

lemma calculate_price_int_plain:
  assumes "sessions payload \<noteq> 8"
    and "raw_sum (List.map_filter (resolve_code svcs packages) (selected_codes payload)) =
           Finite (of_int k)"
    and "\<bar>k\<bar> \<le> 2 ^ 53"
  shows "calculate_price svcs packages payload =
           Inr \<lparr>items = List.map_filter (resolve_code svcs packages) (selected_codes payload),
                subtotal = Finite (of_int k), promo_label = None, total = Finite (of_int k)\<rparr>"
  unfolding calculate_price_alt Let_def assms(2)
  by (simp add: assms(1) py_round2_int [OF assms(3)] del: py_round2.simps)

lemma resolve_OKS:
  "resolve_code DEFAULT_SERVICES DEFAULT_PACKAGES ''OKS'' =
     Some [(''code'', PyStr ''OKS''), (''name'', PyStr ''Oksels''),
           (''price'', PyFloat (Finite 39))]"
  by (simp add: resolve_code_def DEFAULT_SERVICES_def DEFAULT_PACKAGES_def mk_service_def)

lemma resolve_BIK_K:
  "resolve_code DEFAULT_SERVICES DEFAULT_PACKAGES ''BIK-K'' =
     Some [(''code'', PyStr ''BIK-K''), (''name'', PyStr ''Bikinilijn klein''),
           (''price'', PyFloat (Finite 49))]"
  by (simp add: resolve_code_def DEFAULT_SERVICES_def DEFAULT_PACKAGES_def mk_service_def)

lemma items_OKS:
  "List.map_filter (resolve_code DEFAULT_SERVICES DEFAULT_PACKAGES) [''OKS''] =
     [[(''code'', PyStr ''OKS''), (''name'', PyStr ''Oksels''), (''price'', PyFloat (Finite 39))]]"
  by (simp add: List.map_filter_simps resolve_OKS)

lemma items_OKS_BIK_K:
  "List.map_filter (resolve_code DEFAULT_SERVICES DEFAULT_PACKAGES) [''OKS'', ''BIK-K''] =
     [[(''code'', PyStr ''OKS''), (''name'', PyStr ''Oksels''), (''price'', PyFloat (Finite 39))],
      [(''code'', PyStr ''BIK-K''), (''name'', PyStr ''Bikinilijn klein''),
       (''price'', PyFloat (Finite 49))]]"
  by (simp add: List.map_filter_simps resolve_OKS resolve_BIK_K)

lemma items_FB_STD:
  "List.map_filter (resolve_code DEFAULT_SERVICES DEFAULT_PACKAGES) [''FB-STD''] =
     [[(''code'', PyStr ''FB-STD''), (''name'', PyStr ''Full body''),
       (''price'', PyFloat (Finite 279)), (''package'', PyBool True)]]"
  by (simp add: List.map_filter_simps resolve_FB_STD)

lemma raw_sum_OKS:
  "raw_sum [[(''code'', PyStr ''OKS''), (''name'', PyStr ''Oksels''),
             (''price'', PyFloat (Finite 39))]] = Finite (of_int 39)"
  using raw_sum_ints [of _ "[39]"] by (simp add: item_prices_Cons_price item_prices_Nil)

lemma raw_sum_FB_STD:
  "raw_sum [[(''code'', PyStr ''FB-STD''), (''name'', PyStr ''Full body''),
             (''price'', PyFloat (Finite 279)), (''package'', PyBool True)]] = Finite (of_int 279)"
  using raw_sum_ints [of _ "[279]"] by (simp add: item_prices_Cons_price item_prices_Nil)

lemma calculate_OKS_8:
  "calculate_price DEFAULT_SERVICES DEFAULT_PACKAGES \<lparr>selected_codes = [''OKS''], sessions = 8\<rparr> =
     Inr \<lparr>items = [[(''code'', PyStr ''OKS''), (''name'', PyStr ''Oksels''),
                     (''price'', PyFloat (Finite 39))]],
          subtotal = Finite 39, promo_label = Some ''6 + 2 gratis'', total = Finite (117 / 4)\<rparr>"
  using calculate_price_int_promo
    [of "\<lparr>selected_codes = [''OKS''], sessions = 8\<rparr>" DEFAULT_SERVICES DEFAULT_PACKAGES 39]
  by (simp add: List.map_filter_simps resolve_OKS raw_sum_OKS)

lemma resolve_half_cent:
  "resolve_code half_cent_services [] ''A'' =
     Some [(''code'', PyStr ''A''), (''name'', PyStr ''Zone A''), (''price'', PyFloat (Finite (1 / 8)))]"
  "resolve_code half_cent_services [] ''B'' =
     Some [(''code'', PyStr ''B''), (''name'', PyStr ''Zone B''),
           (''price'', PyFloat (Finite (1080863910568919 / 72057594037927936)))]"
  "resolve_code half_cent_services [] ''C'' =
     Some [(''code'', PyStr ''C''), (''name'', PyStr ''Zone C''),
           (''price'', PyFloat (Finite (5764607523034235 / 1152921504606846976)))]"
  by (simp_all add: resolve_code_def half_cent_services_def mk_service_def)

lemma half_cent_forward:
  "fadd (fadd (fadd (Finite 0) (Finite (1 / 8))) (Finite (1080863910568919 / 72057594037927936)))
        (Finite (5764607523034235 / 1152921504606846976)) =
     Finite (326510972984361 / 2251799813685248)"
  by code_simp

lemma half_cent_forward_round:
  "py_round2 (Finite (326510972984361 / 2251799813685248)) =
     Inr (Finite (5404319552844595 / 36028797018963968))"
  by code_simp

lemma half_cent_backward:
  "fadd (fadd (fadd (Finite 0) (Finite (5764607523034235 / 1152921504606846976)))
              (Finite (1080863910568919 / 72057594037927936))) (Finite (1 / 8)) =
     Finite (5224175567749775 / 36028797018963968)"
  by code_simp

lemma half_cent_backward_round:
  "py_round2 (Finite (5224175567749775 / 36028797018963968)) =
     Inr (Finite (1261007895663739 / 9007199254740992))"
  by code_simp

lemma half_cent_exact:
  "round_half_even (100 * (1 / 8 + 1080863910568919 / 72057594037927936
      + 5764607523034235 / 1152921504606846976)) = 14"
  "round_half_even (100 * (5404319552844595 / 36028797018963968)) = 15"
  "round_half_even (100 * (1261007895663739 / 9007199254740992)) = 14"
  by code_simp+

text \<open>
  Claim C3, as stated, fails: the subtotal is not the sum of the item prices rounded
  to 2 places. For three stored services priced 0.125, 0.015 and 0.005 the subtotal
  is 0.15, while the sum of these three prices is nearest to 0.14; selecting the
  same three services in the reverse order gives the subtotal 0.14.
\<close>

theorem C3_exact_sum_counterexample:
  "calculate_price half_cent_services [] \<lparr>selected_codes = [''A'', ''B'', ''C''], sessions = 1\<rparr> =
     Inr \<lparr>items =
            [[(''code'', PyStr ''A''), (''name'', PyStr ''Zone A''),
              (''price'', PyFloat (Finite (1 / 8)))],
             [(''code'', PyStr ''B''), (''name'', PyStr ''Zone B''),
              (''price'', PyFloat (Finite (1080863910568919 / 72057594037927936)))],
             [(''code'', PyStr ''C''), (''name'', PyStr ''Zone C''),
              (''price'', PyFloat (Finite (5764607523034235 / 1152921504606846976)))]],
          subtotal = Finite (5404319552844595 / 36028797018963968), promo_label = None,
          total = Finite (5404319552844595 / 36028797018963968)\<rparr> \<and>
   round_half_even (100 * (5404319552844595 / 36028797018963968)) = 15 \<and>
   round_half_even (100 * (1 / 8 + 1080863910568919 / 72057594037927936
      + 5764607523034235 / 1152921504606846976)) = 14 \<and>
   calculate_price half_cent_services [] \<lparr>selected_codes = [''C'', ''B'', ''A''], sessions = 1\<rparr> =
     Inr \<lparr>items =
            [[(''code'', PyStr ''C''), (''name'', PyStr ''Zone C''),
              (''price'', PyFloat (Finite (5764607523034235 / 1152921504606846976)))],
             [(''code'', PyStr ''B''), (''name'', PyStr ''Zone B''),
              (''price'', PyFloat (Finite (1080863910568919 / 72057594037927936)))],
             [(''code'', PyStr ''A''), (''name'', PyStr ''Zone A''),
              (''price'', PyFloat (Finite (1 / 8)))]],
          subtotal = Finite (1261007895663739 / 9007199254740992), promo_label = None,
          total = Finite (1261007895663739 / 9007199254740992)\<rparr> \<and>
   round_half_even (100 * (1261007895663739 / 9007199254740992)) = 14"
proof (intro conjI)
  show "round_half_even (100 * (5404319552844595 / 36028797018963968)) = 15"
    by (rule half_cent_exact)
  show "round_half_even (100 * (1 / 8 + 1080863910568919 / 72057594037927936
      + 5764607523034235 / 1152921504606846976)) = 14"
    by (rule half_cent_exact)
  show "round_half_even (100 * (1261007895663739 / 9007199254740992)) = 14"
    by (rule half_cent_exact)
qed (simp_all add: calculate_price_alt List.map_filter_simps resolve_half_cent raw_sum_def
      item_prices_Cons_price item_prices_Nil half_cent_forward half_cent_forward_round
      half_cent_backward half_cent_backward_round Let_def
      del: fadd.simps py_round2.simps)

text \<open>
  Claim C3, amended. The subtotal is \<open>round(s, 2)\<close> where \<open>s\<close> is obtained by adding
  the prices of the line items one at a time, in item order, to 0.0 in float
  arithmetic. When the item prices are non-negative whole numbers whose sum is at
  most \<open>2 ^ 53\<close> the subtotal is exactly their sum. In general the subtotal is a
  float within a relative \<open>2 ^ - 53\<close> of \<open>n / 100\<close>, for a whole number \<open>n\<close> within
  one half of \<open>100 s\<close>. Every item carries its price, and the codes of the items are
  the matched selected codes in input order. The empty selection with one session
  gives items = [], subtotal = 0.0, total = 0.0 and no promo label.
\<close>

theorem C3_subtotal_float_sum:
  "(\<exists>r. calculate_price svcs packages payload = Inr r \<and>
        py_round2 (foldl fadd (Finite 0) (item_prices (items r))) = Inr (subtotal r) \<and>
        (\<forall>ks. item_prices (items r) = map (\<lambda>k. Finite (of_int k)) ks \<and>
              list_all (\<lambda>k. 0 \<le> k) ks \<and> sum_list ks \<le> 2 ^ 53 \<longrightarrow>
              subtotal r = Finite (of_int (sum_list ks))) \<and>
        (\<forall>s. foldl fadd (Finite 0) (item_prices (items r)) = Finite s \<longrightarrow>
             (\<exists>n y. subtotal r = Finite y \<and> \<bar>of_int n - 100 * s\<bar> \<le> 1 / 2 \<and>
                    \<bar>y - of_int n / 100\<bar> \<le> \<bar>y\<bar> / 2 ^ 53)) \<and>
        map (\<lambda>it. map_of it ''price'') (items r) =
          map (\<lambda>p. Some (PyFloat p)) (item_prices (items r)) \<and>
        map (\<lambda>it. map_of it ''code'') (items r) =
          map (\<lambda>c. Some (PyStr c)) (filter (matched svcs packages) (selected_codes payload))) \<and>
   calculate_price svcs packages \<lparr>selected_codes = [], sessions = 1\<rparr> =
     Inr \<lparr>items = [], subtotal = Finite 0, promo_label = None, total = Finite 0\<rparr>"
proof -
  obtain r where r: "calculate_price svcs packages payload = Inr r"
    "items r = List.map_filter (resolve_code svcs packages) (selected_codes payload)"
    "py_round2 (raw_sum (items r)) = Inr (subtotal r)"
    using calculate_price_items [of svcs packages payload] by blast
  from r(3) have sum: "py_round2 (foldl fadd (Finite 0) (item_prices (items r))) = Inr (subtotal r)"
    by (simp add: raw_sum_def)
  have ints: "subtotal r = Finite (of_int (sum_list ks))"
    if "item_prices (items r) = map (\<lambda>k. Finite (of_int k)) ks"
      and "list_all (\<lambda>k. 0 \<le> k) ks" and "sum_list ks \<le> 2 ^ 53" for ks
  proof -
    from that(2) have nn: "\<forall>k \<in> set ks. 0 \<le> k" by (simp add: list_all_iff)
    then have "0 \<le> sum_list ks" by (simp add: sum_list_nonneg)
    with that(3) have "\<bar>sum_list ks\<bar> \<le> 2 ^ 53" by simp
    from py_round2_int [OF this] raw_sum_ints [OF that(1) nn that(3)] r(3)
    show ?thesis by (simp del: py_round2.simps)
  qed
  have spec: "\<exists>n y. subtotal r = Finite y \<and> \<bar>of_int n - 100 * s\<bar> \<le> 1 / 2 \<and>
                    \<bar>y - of_int n / 100\<bar> \<le> \<bar>y\<bar> / 2 ^ 53"
    if "foldl fadd (Finite 0) (item_prices (items r)) = Finite s" for s
    using py_round2_spec [of s "subtotal r"] sum that by simp
  have "map (\<lambda>it. map_of it ''price'') (items r) =
          map (\<lambda>p. Some (PyFloat p)) (item_prices (items r))"
    unfolding r(2) by (rule resolved_price_key)
  moreover have "map (\<lambda>it. map_of it ''code'') (items r) =
          map (\<lambda>c. Some (PyStr c)) (filter (matched svcs packages) (selected_codes payload))"
    unfolding r(2) by (rule resolved_code_key)
  moreover have "calculate_price svcs packages \<lparr>selected_codes = [], sessions = 1\<rparr> =
     Inr \<lparr>items = [], subtotal = Finite 0, promo_label = None, total = Finite 0\<rparr>"
    by (simp add: calculate_price_empty)
  ultimately show ?thesis using r(1) sum ints spec by blast
qed

text \<open>
  The amended claim C3 on the default catalog: \<open>OKS\<close> and \<open>BIK-K\<close> give the subtotal 88.0.
\<close>

theorem C3_subtotal_float_sum_witness:
  "\<exists>r. calculate_price DEFAULT_SERVICES DEFAULT_PACKAGES
         \<lparr>selected_codes = [''OKS'', ''BIK-K''], sessions = 1\<rparr> = Inr r \<and>
       item_prices (items r) = map (\<lambda>k. Finite (of_int k)) [39, 49] \<and>
       list_all (\<lambda>k. 0 \<le> k) [39, 49 :: int] \<and> sum_list [39, 49] \<le> (2 :: int) ^ 53 \<and>
       foldl fadd (Finite 0) (item_prices (items r)) = Finite 88 \<and>
       subtotal r = Finite 88 \<and>
       (\<exists>n y. subtotal r = Finite y \<and> \<bar>of_int n - 100 * 88\<bar> \<le> (1 / 2 :: rat) \<and>
              \<bar>y - of_int n / 100\<bar> \<le> \<bar>y\<bar> / 2 ^ 53)"
proof -
  let ?payload = "\<lparr>selected_codes = [''OKS'', ''BIK-K''], sessions = 1\<rparr>"
  from C3_subtotal_float_sum [of DEFAULT_SERVICES DEFAULT_PACKAGES ?payload]
  obtain r where r: "calculate_price DEFAULT_SERVICES DEFAULT_PACKAGES ?payload = Inr r"
    and ints: "\<And>ks. item_prices (items r) = map (\<lambda>k. Finite (of_int k)) ks \<Longrightarrow>
              list_all (\<lambda>k. 0 \<le> k) ks \<Longrightarrow> sum_list ks \<le> 2 ^ 53 \<Longrightarrow>
              subtotal r = Finite (of_int (sum_list ks))"
    and spec: "\<And>s. foldl fadd (Finite 0) (item_prices (items r)) = Finite s \<Longrightarrow>
             \<exists>n y. subtotal r = Finite y \<and> \<bar>of_int n - 100 * s\<bar> \<le> 1 / 2 \<and>
                    \<bar>y - of_int n / 100\<bar> \<le> \<bar>y\<bar> / 2 ^ 53"
    by blast
  from calculate_price_items [of DEFAULT_SERVICES DEFAULT_PACKAGES ?payload] r
  have "items r = List.map_filter (resolve_code DEFAULT_SERVICES DEFAULT_PACKAGES)
      [''OKS'', ''BIK-K'']"
    by auto
  then have "items r =
     [[(''code'', PyStr ''OKS''), (''name'', PyStr ''Oksels''), (''price'', PyFloat (Finite 39))],
      [(''code'', PyStr ''BIK-K''), (''name'', PyStr ''Bikinilijn klein''),
       (''price'', PyFloat (Finite 49))]]"
    by (simp only: items_OKS_BIK_K)
  then have p: "item_prices (items r) = map (\<lambda>k. Finite (of_int k)) [39, 49]"
    by (simp add: item_prices_Cons_price item_prices_Nil)
  have f: "foldl fadd (Finite 0) (item_prices (items r)) = Finite 88"
    unfolding p using foldl_fadd_ints [of "[39, 49]" 0] by simp
  from ints [OF p] have s: "subtotal r = Finite 88" by simp
  from spec [OF f] r p f s show ?thesis by (intro exI [of _ r]) simp
qed

lemma cent_cents:
  "round_half_even (100 * (5267804189139927 / 140737488355328)) = 3743"
  "round_half_even (100 * (2633198407128187 / 70368744177664)) = 3742"
  "round_half_even (100 * (7022800668930867 / 140737488355328)) = 4990"
  by code_simp+

text \<open>
  Claim C1, as stated, fails: with 8 sessions the returned total is not the returned
  subtotal times 0.75 rounded to 2 places. For two stored services priced 9.95 and
  39.95 the result has subtotal 49.9 and total 37.43, while \<open>round(49.9 * 0.75, 2)\<close> is
  37.42: the source multiplies the unrounded float sum 49.900000000000006.
\<close>

theorem C1_total_counterexample:
  "calculate_price cent_services [] \<lparr>selected_codes = [''A'', ''B''], sessions = 8\<rparr> =
     Inr \<lparr>items =
            [[(''code'', PyStr ''A''), (''name'', PyStr ''Zone A''),
              (''price'', PyFloat (Finite (2800676018271027 / 281474976710656)))],
             [(''code'', PyStr ''B''), (''name'', PyStr ''Zone B''),
              (''price'', PyFloat (Finite (2811231329897677 / 70368744177664)))]],
          subtotal = Finite (7022800668930867 / 140737488355328),
          promo_label = Some ''6 + 2 gratis'',
          total = Finite (5267804189139927 / 140737488355328)\<rparr> \<and>
   py_round2 (fmul (Finite (7022800668930867 / 140737488355328)) (Finite (3 / 4))) =
     Inr (Finite (2633198407128187 / 70368744177664)) \<and>
   round_half_even (100 * (7022800668930867 / 140737488355328)) = 4990 \<and>
   round_half_even (100 * (5267804189139927 / 140737488355328)) = 3743 \<and>
   round_half_even (100 * (2633198407128187 / 70368744177664)) = 3742"
proof (intro conjI)
  show "py_round2 (fmul (Finite (7022800668930867 / 140737488355328)) (Finite (3 / 4))) =
     Inr (Finite (2633198407128187 / 70368744177664))"
    by (rule cent_from_subtotal)
  show "round_half_even (100 * (7022800668930867 / 140737488355328)) = 4990"
    by (rule cent_cents)
  show "round_half_even (100 * (5267804189139927 / 140737488355328)) = 3743"
    by (rule cent_cents)
  show "round_half_even (100 * (2633198407128187 / 70368744177664)) = 3742"
    by (rule cent_cents)
qed (simp add: calculate_price_alt List.map_filter_simps resolve_cent raw_sum_def
      item_prices_Cons_price item_prices_Nil cent_sum cent_subtotal cent_total cent_total_twice
      Let_def del: fadd.simps fmul.simps py_round2.simps)

text \<open>
  Claim C1, amended. With exactly 8 sessions the promo label is \<open>6 + 2 gratis\<close>, the
  subtotal is \<open>round(s, 2)\<close> and the total is \<open>round(s * 0.75, 2)\<close>, where \<open>s\<close> is the
  unrounded float sum of the item prices. When \<open>s\<close> is a whole number up to \<open>2 ^ 51\<close>
  the subtotal is \<open>s\<close> and the total is exactly three quarters of it; when \<open>s\<close> is at
  least one cent, the total is a float within a relative \<open>2 ^ - 53\<close> of \<open>n / 100\<close>, for
  a whole number \<open>n\<close> within one half of \<open>100 q\<close>, where \<open>q\<close> is within a relative
  \<open>2 ^ - 53\<close> of \<open>0.75 s\<close>. For every other session count there is no promo label and
  the total equals the subtotal. On the default catalog, \<open>OKS\<close> with 8 sessions gives
  subtotal 39.0, the label, and total 29.25.
\<close>

theorem C1_promo_total:
  "(\<exists>r. calculate_price svcs packages \<lparr>selected_codes = cs, sessions = 8\<rparr> = Inr r \<and>
        promo_label r = Some ''6 + 2 gratis'' \<and>
        py_round2 (raw_sum (items r)) = Inr (subtotal r) \<and>
        py_round2 (fmul (raw_sum (items r)) (Finite (3 / 4))) = Inr (total r) \<and>
        (\<forall>k. raw_sum (items r) = Finite (of_int k) \<and> 0 \<le> k \<and> k \<le> 2 ^ 51 \<longrightarrow>
             subtotal r = Finite (of_int k) \<and> total r = Finite (3 * of_int k / 4)) \<and>
        (\<forall>s. raw_sum (items r) = Finite s \<and> 1 / 100 \<le> s \<longrightarrow>
             (\<exists>q n y. \<bar>q - 3 / 4 * s\<bar> \<le> \<bar>q\<bar> / 2 ^ 53 \<and> \<bar>of_int n - 100 * q\<bar> \<le> 1 / 2 \<and>
                      total r = Finite y \<and> \<bar>y - of_int n / 100\<bar> \<le> \<bar>y\<bar> / 2 ^ 53))) \<and>
   (n \<noteq> 8 \<longrightarrow>
      (\<exists>r. calculate_price svcs packages \<lparr>selected_codes = cs, sessions = n\<rparr> = Inr r \<and>
           promo_label r = None \<and> total r = subtotal r)) \<and>
   calculate_price DEFAULT_SERVICES DEFAULT_PACKAGES \<lparr>selected_codes = [''OKS''], sessions = 8\<rparr> =
     Inr \<lparr>items = [[(''code'', PyStr ''OKS''), (''name'', PyStr ''Oksels''),
                     (''price'', PyFloat (Finite 39))]],
          subtotal = Finite 39, promo_label = Some ''6 + 2 gratis'', total = Finite (117 / 4)\<rparr>"
proof (intro conjI)
  let ?payload = "\<lparr>selected_codes = cs, sessions = 8\<rparr>"
  let ?its = "List.map_filter (resolve_code svcs packages) cs"
  from calculate_price_promo_total [of ?payload svcs packages]
  obtain t rs where *: "py_round2 (fmul (raw_sum ?its) (Finite (3 / 4))) = Inr t"
    "py_round2 (raw_sum ?its) = Inr rs"
    "calculate_price svcs packages ?payload =
       Inr \<lparr>items = ?its, subtotal = rs, promo_label = Some ''6 + 2 gratis'', total = t\<rparr>"
    by auto
  have ints: "rs = Finite (of_int k) \<and> t = Finite (3 * of_int k / 4)"
    if "raw_sum ?its = Finite (of_int k)" and "0 \<le> k" and "k \<le> 2 ^ 51" for k
    using calculate_price_int_promo [of ?payload svcs packages k] that *(3) by simp
  have spec: "\<exists>q n y. \<bar>q - 3 / 4 * s\<bar> \<le> \<bar>q\<bar> / 2 ^ 53 \<and> \<bar>of_int n - 100 * q\<bar> \<le> 1 / 2 \<and>
                      t = Finite y \<and> \<bar>y - of_int n / 100\<bar> \<le> \<bar>y\<bar> / 2 ^ 53"
    if "raw_sum ?its = Finite s" and "1 / 100 \<le> s" for s
  proof -
    have "is_double (Finite s)" using is_double_raw_sum [of ?its] that(1) by simp
    from fmul_rel_err [OF this that(2)] obtain q
      where q: "fmul (Finite s) (Finite (3 / 4)) = Finite q" "\<bar>q - 3 / 4 * s\<bar> \<le> \<bar>q\<bar> / 2 ^ 53"
      by blast
    from *(1) that(1) q(1) have "py_round2 (Finite q) = Inr t" by simp
    from py_round2_spec [OF this] q(2) show ?thesis by blast
  qed
  show "\<exists>r. calculate_price svcs packages ?payload = Inr r \<and>
        promo_label r = Some ''6 + 2 gratis'' \<and>
        py_round2 (raw_sum (items r)) = Inr (subtotal r) \<and>
        py_round2 (fmul (raw_sum (items r)) (Finite (3 / 4))) = Inr (total r) \<and>
        (\<forall>k. raw_sum (items r) = Finite (of_int k) \<and> 0 \<le> k \<and> k \<le> 2 ^ 51 \<longrightarrow>
             subtotal r = Finite (of_int k) \<and> total r = Finite (3 * of_int k / 4)) \<and>
        (\<forall>s. raw_sum (items r) = Finite s \<and> 1 / 100 \<le> s \<longrightarrow>
             (\<exists>q n y. \<bar>q - 3 / 4 * s\<bar> \<le> \<bar>q\<bar> / 2 ^ 53 \<and> \<bar>of_int n - 100 * q\<bar> \<le> 1 / 2 \<and>
                      total r = Finite y \<and> \<bar>y - of_int n / 100\<bar> \<le> \<bar>y\<bar> / 2 ^ 53))"
    using * ints spec
    by (intro exI [of _ "\<lparr>items = ?its, subtotal = rs, promo_label = Some ''6 + 2 gratis'',
          total = t\<rparr>"]) simp
  show "n \<noteq> 8 \<longrightarrow>
      (\<exists>r. calculate_price svcs packages \<lparr>selected_codes = cs, sessions = n\<rparr> = Inr r \<and>
           promo_label r = None \<and> total r = subtotal r)"
  proof
    assume "n \<noteq> 8"
    with calculate_price_plain [of "\<lparr>selected_codes = cs, sessions = n\<rparr>" svcs packages]
    show "\<exists>r. calculate_price svcs packages \<lparr>selected_codes = cs, sessions = n\<rparr> = Inr r \<and>
           promo_label r = None \<and> total r = subtotal r"
      by force
  qed
  show "calculate_price DEFAULT_SERVICES DEFAULT_PACKAGES
       \<lparr>selected_codes = [''OKS''], sessions = 8\<rparr> =
     Inr \<lparr>items = [[(''code'', PyStr ''OKS''), (''name'', PyStr ''Oksels''),
                     (''price'', PyFloat (Finite 39))]],
          subtotal = Finite 39, promo_label = Some ''6 + 2 gratis'', total = Finite (117 / 4)\<rparr>"
    by (rule calculate_OKS_8)
qed

text \<open>
  The amended claim C1 on the default catalog, for \<open>OKS\<close> with 8 sessions and with 1
  session.
\<close>

theorem C1_promo_total_witness:
  "(\<exists>r. calculate_price DEFAULT_SERVICES DEFAULT_PACKAGES
          \<lparr>selected_codes = [''OKS''], sessions = 8\<rparr> = Inr r \<and>
        raw_sum (items r) = Finite (of_int 39) \<and> (0 :: int) \<le> 39 \<and> (39 :: int) \<le> 2 ^ 51 \<and>
        (1 / 100 :: rat) \<le> 39 \<and>
        subtotal r = Finite 39 \<and> total r = Finite (117 / 4) \<and>
        (\<exists>q n y. \<bar>q - 3 / 4 * 39\<bar> \<le> \<bar>q\<bar> / 2 ^ 53 \<and> \<bar>of_int n - 100 * q\<bar> \<le> (1 / 2 :: rat) \<and>
                 total r = Finite y \<and> \<bar>y - of_int n / 100\<bar> \<le> \<bar>y\<bar> / 2 ^ 53)) \<and>
   (1 :: int) \<noteq> 8 \<and>
   (\<exists>r. calculate_price DEFAULT_SERVICES DEFAULT_PACKAGES
          \<lparr>selected_codes = [''OKS''], sessions = 1\<rparr> = Inr r \<and>
        promo_label r = None \<and> total r = subtotal r)"
proof -
  note inst = C1_promo_total [of DEFAULT_SERVICES DEFAULT_PACKAGES "[''OKS'']" 1]
  from inst obtain r
    where r: "calculate_price DEFAULT_SERVICES DEFAULT_PACKAGES
          \<lparr>selected_codes = [''OKS''], sessions = 8\<rparr> = Inr r"
      and ints: "\<And>k. raw_sum (items r) = Finite (of_int k) \<Longrightarrow> 0 \<le> k \<Longrightarrow> k \<le> 2 ^ 51 \<Longrightarrow>
             subtotal r = Finite (of_int k) \<and> total r = Finite (3 * of_int k / 4)"
      and spec: "\<And>s. raw_sum (items r) = Finite s \<Longrightarrow> 1 / 100 \<le> s \<Longrightarrow>
             \<exists>q n y. \<bar>q - 3 / 4 * s\<bar> \<le> \<bar>q\<bar> / 2 ^ 53 \<and> \<bar>of_int n - 100 * q\<bar> \<le> 1 / 2 \<and>
                      total r = Finite y \<and> \<bar>y - of_int n / 100\<bar> \<le> \<bar>y\<bar> / 2 ^ 53"
    by blast
  from r calculate_OKS_8 have "items r =
      [[(''code'', PyStr ''OKS''), (''name'', PyStr ''Oksels''), (''price'', PyFloat (Finite 39))]]"
    by auto
  then have raw: "raw_sum (items r) = Finite (of_int 39)" by (simp only: raw_sum_OKS)
  from ints [OF raw] have st: "subtotal r = Finite 39" "total r = Finite (117 / 4)" by simp_all
  from raw have raw': "raw_sum (items r) = Finite 39" by simp
  from spec [OF raw'] have sp: "\<exists>q n y. \<bar>q - 3 / 4 * 39\<bar> \<le> \<bar>q\<bar> / 2 ^ 53 \<and>
      \<bar>of_int n - 100 * q\<bar> \<le> (1 / 2 :: rat) \<and>
      total r = Finite y \<and> \<bar>y - of_int n / 100\<bar> \<le> \<bar>y\<bar> / 2 ^ 53"
    by simp
  from inst have plain: "\<exists>r. calculate_price DEFAULT_SERVICES DEFAULT_PACKAGES
          \<lparr>selected_codes = [''OKS''], sessions = 1\<rparr> = Inr r \<and>
        promo_label r = None \<and> total r = subtotal r"
    by simp
  from r raw st sp have "\<exists>r. calculate_price DEFAULT_SERVICES DEFAULT_PACKAGES
          \<lparr>selected_codes = [''OKS''], sessions = 8\<rparr> = Inr r \<and>
        raw_sum (items r) = Finite (of_int 39) \<and> (0 :: int) \<le> 39 \<and> (39 :: int) \<le> 2 ^ 51 \<and>
        (1 / 100 :: rat) \<le> 39 \<and>
        subtotal r = Finite 39 \<and> total r = Finite (117 / 4) \<and>
        (\<exists>q n y. \<bar>q - 3 / 4 * 39\<bar> \<le> \<bar>q\<bar> / 2 ^ 53 \<and> \<bar>of_int n - 100 * q\<bar> \<le> (1 / 2 :: rat) \<and>
                 total r = Finite y \<and> \<bar>y - of_int n / 100\<bar> \<le> \<bar>y\<bar> / 2 ^ 53)"
    by (intro exI [of _ r]) simp
  with plain show ?thesis by simp
qed

text \<open>
  Claim C9. The result does not depend on the \<open>promo_6_plus_2\<close> flags of the packages:
  setting them to any values leaves it unchanged. With 8 sessions the promo label is
  always set and the total is the float sum of the item prices times 0.75, rounded
  to 2 places, whatever was matched: for the empty selection that is a total of 0.0
  with the label set; on the default catalog with every flag set to false, the
  package \<open>FB-STD\<close> (279) gets the label and the total 209.25, and the service \<open>OKS\<close>
  (39, no package matched) gets the label and the total 29.25.
\<close>

theorem C9_promo_flag_unread:
  "calculate_price svcs (map (\<lambda>p. p\<lparr>promo_6_plus_2 := flag p\<rparr>) packages) payload =
     calculate_price svcs packages payload \<and>
   (\<exists>r. calculate_price svcs packages \<lparr>selected_codes = cs, sessions = 8\<rparr> = Inr r \<and>
        promo_label r = Some ''6 + 2 gratis'' \<and>
        py_round2 (fmul (raw_sum (items r)) (Finite (3 / 4))) = Inr (total r)) \<and>
   calculate_price svcs packages \<lparr>selected_codes = [], sessions = 8\<rparr> =
     Inr \<lparr>items = [], subtotal = Finite 0, promo_label = Some ''6 + 2 gratis'',
          total = Finite 0\<rparr> \<and>
   calculate_price DEFAULT_SERVICES (map (\<lambda>p. p\<lparr>promo_6_plus_2 := False\<rparr>) DEFAULT_PACKAGES)
       \<lparr>selected_codes = [''FB-STD''], sessions = 8\<rparr> =
     Inr \<lparr>items = [[(''code'', PyStr ''FB-STD''), (''name'', PyStr ''Full body''),
                     (''price'', PyFloat (Finite 279)), (''package'', PyBool True)]],
          subtotal = Finite 279, promo_label = Some ''6 + 2 gratis'', total = Finite (837 / 4)\<rparr> \<and>
   calculate_price DEFAULT_SERVICES (map (\<lambda>p. p\<lparr>promo_6_plus_2 := False\<rparr>) DEFAULT_PACKAGES)
       \<lparr>selected_codes = [''OKS''], sessions = 8\<rparr> =
     Inr \<lparr>items = [[(''code'', PyStr ''OKS''), (''name'', PyStr ''Oksels''),
                     (''price'', PyFloat (Finite 39))]],
          subtotal = Finite 39, promo_label = Some ''6 + 2 gratis'', total = Finite (117 / 4)\<rparr>"
proof (intro conjI)
  have inv: "calculate_price svcs' (map (\<lambda>p. p\<lparr>promo_6_plus_2 := flag' p\<rparr>) packages') payload' =
     calculate_price svcs' packages' payload'" for svcs' flag' packages' payload'
  proof -
    have "resolve_code svcs' (map (\<lambda>p. p\<lparr>promo_6_plus_2 := flag' p\<rparr>) packages') =
        resolve_code svcs' packages'"
      by (rule ext) (rule resolve_code_promo)
    then show ?thesis by (intro calculate_price_cong) simp_all
  qed
  show "calculate_price svcs (map (\<lambda>p. p\<lparr>promo_6_plus_2 := flag p\<rparr>) packages) payload =
     calculate_price svcs packages payload"
    by (rule inv)
  from calculate_price_promo_total [of "\<lparr>selected_codes = cs, sessions = 8\<rparr>" svcs packages]
  show "\<exists>r. calculate_price svcs packages \<lparr>selected_codes = cs, sessions = 8\<rparr> = Inr r \<and>
        promo_label r = Some ''6 + 2 gratis'' \<and>
        py_round2 (fmul (raw_sum (items r)) (Finite (3 / 4))) = Inr (total r)"
    by force
  show "calculate_price svcs packages \<lparr>selected_codes = [], sessions = 8\<rparr> =
     Inr \<lparr>items = [], subtotal = Finite 0, promo_label = Some ''6 + 2 gratis'',
          total = Finite 0\<rparr>"
    by (simp add: calculate_price_empty)
  have "calculate_price DEFAULT_SERVICES DEFAULT_PACKAGES
       \<lparr>selected_codes = [''FB-STD''], sessions = 8\<rparr> =
     Inr \<lparr>items = [[(''code'', PyStr ''FB-STD''), (''name'', PyStr ''Full body''),
                     (''price'', PyFloat (Finite 279)), (''package'', PyBool True)]],
          subtotal = Finite 279, promo_label = Some ''6 + 2 gratis'', total = Finite (837 / 4)\<rparr>"
    using calculate_price_int_promo
      [of "\<lparr>selected_codes = [''FB-STD''], sessions = 8\<rparr>" DEFAULT_SERVICES DEFAULT_PACKAGES 279]
    by (simp add: List.map_filter_simps resolve_FB_STD raw_sum_FB_STD)
  then show "calculate_price DEFAULT_SERVICES
       (map (\<lambda>p. p\<lparr>promo_6_plus_2 := False\<rparr>) DEFAULT_PACKAGES)
       \<lparr>selected_codes = [''FB-STD''], sessions = 8\<rparr> =
     Inr \<lparr>items = [[(''code'', PyStr ''FB-STD''), (''name'', PyStr ''Full body''),
                     (''price'', PyFloat (Finite 279)), (''package'', PyBool True)]],
          subtotal = Finite 279, promo_label = Some ''6 + 2 gratis'', total = Finite (837 / 4)\<rparr>"
    by (simp only: inv [of DEFAULT_SERVICES "\<lambda>p. False" DEFAULT_PACKAGES])
  show "calculate_price DEFAULT_SERVICES
       (map (\<lambda>p. p\<lparr>promo_6_plus_2 := False\<rparr>) DEFAULT_PACKAGES)
       \<lparr>selected_codes = [''OKS''], sessions = 8\<rparr> =
     Inr \<lparr>items = [[(''code'', PyStr ''OKS''), (''name'', PyStr ''Oksels''),
                     (''price'', PyFloat (Finite 39))]],
          subtotal = Finite 39, promo_label = Some ''6 + 2 gratis'', total = Finite (117 / 4)\<rparr>"
    using calculate_OKS_8 by (simp only: inv [of DEFAULT_SERVICES "\<lambda>p. False" DEFAULT_PACKAGES])
qed

lemma construct_all_map: "construct_all mk docs = Inr xs \<Longrightarrow> map Inr xs = map mk docs"
  by (induction docs arbitrary: xs) (auto split: sum.splits)






lemma half_cent_services_double:
  "rnd (125 / 1000) = 1 / 8"
  "rnd (15 / 1000) = 1080863910568919 / 72057594037927936"
  "rnd (5 / 1000) = 5764607523034235 / 1152921504606846976"
  by code_simp+

lemma calculate_OKS_FB_STD_8:
  "calculate_price DEFAULT_SERVICES DEFAULT_PACKAGES
       \<lparr>selected_codes = [''OKS'', ''FB-STD''], sessions = 8\<rparr> =
     Inr \<lparr>items =
            [[(''code'', PyStr ''OKS''), (''name'', PyStr ''Oksels''),
              (''price'', PyFloat (Finite 39))],
             [(''code'', PyStr ''FB-STD''), (''name'', PyStr ''Full body''),
              (''price'', PyFloat (Finite 279)), (''package'', PyBool True)]],
          subtotal = Finite 318, promo_label = Some ''6 + 2 gratis'', total = Finite (477 / 2)\<rparr>"
proof -
  have "raw_sum
      [[(''code'', PyStr ''OKS''), (''name'', PyStr ''Oksels''), (''price'', PyFloat (Finite 39))],
       [(''code'', PyStr ''FB-STD''), (''name'', PyStr ''Full body''),
        (''price'', PyFloat (Finite 279)), (''package'', PyBool True)]] = Finite (of_int 318)"
    using raw_sum_ints [of _ "[39, 279]"] by (simp add: item_prices_Cons_price item_prices_Nil)
  with calculate_price_int_promo
    [of "\<lparr>selected_codes = [''OKS'', ''FB-STD''], sessions = 8\<rparr>"
      DEFAULT_SERVICES DEFAULT_PACKAGES 318]
  show ?thesis by (simp add: List.map_filter_simps resolve_OKS resolve_FB_STD)
qed

text \<open>
  Claim C10 on the default catalog, whose prices are all non-negative: \<open>OKS\<close> and
  \<open>FB-STD\<close> with 8 sessions give subtotal 318.0 and total 238.5.
\<close>

theorem C10_total_bounds_witness:
  "list_all (\<lambda>s. fle (Finite 0) (Service.price_single s)) DEFAULT_SERVICES \<and>
   list_all (\<lambda>p. fle (Finite 0) (Package.price_single p)) DEFAULT_PACKAGES \<and>
   (\<exists>r. calculate_price DEFAULT_SERVICES DEFAULT_PACKAGES
          \<lparr>selected_codes = [''OKS'', ''FB-STD''], sessions = 8\<rparr> = Inr r \<and>
        subtotal r = Finite 318 \<and> total r = Finite (477 / 2) \<and>
        fle (Finite 0) (total r) \<and> fle (total r) (subtotal r) \<and> fle (Finite 0) (subtotal r))"
proof -
  let ?payload = "\<lparr>selected_codes = [''OKS'', ''FB-STD''], sessions = 8\<rparr>"
  have s: "\<forall>s \<in> set DEFAULT_SERVICES. fle (Finite 0) (Service.price_single s)"
    by (simp add: DEFAULT_SERVICES_def mk_service_def)
  have p: "\<forall>p \<in> set DEFAULT_PACKAGES. fle (Finite 0) (Package.price_single p)"
    by (simp add: DEFAULT_PACKAGES_def)
  from C10_total_bounds [OF s p, of ?payload]
  obtain r where r: "calculate_price DEFAULT_SERVICES DEFAULT_PACKAGES ?payload = Inr r"
    "fle (Finite 0) (total r)" "fle (total r) (subtotal r)" "fle (Finite 0) (subtotal r)"
    by blast
  from r(1) calculate_OKS_FB_STD_8 have "subtotal r = Finite 318" "total r = Finite (477 / 2)"
    by auto
  with r have "\<exists>r. calculate_price DEFAULT_SERVICES DEFAULT_PACKAGES ?payload = Inr r \<and>
        subtotal r = Finite 318 \<and> total r = Finite (477 / 2) \<and>
        fle (Finite 0) (total r) \<and> fle (total r) (subtotal r) \<and> fle (Finite 0) (subtotal r)"
    by blast
  with s p show ?thesis by (simp add: list_all_iff)
qed

text \<open>
  Claim C5. When the read of a collection raises, or returns no record, the endpoint
  returns the built-in default list of that collection, a constant. Whatever the
  read gives, the result is either that default list as a whole or, entry by entry
  and in order, what the constructor made of the stored records: stored records and
  defaults are never mixed. The default lists are the eleven services and the two
  packages of the source. One valid stored document gives the one stored service;
  the same document followed by one that fails validation gives the default list as
  a whole.
\<close>

theorem C5_fallback_all_or_nothing:
  "list_services mk (Inl e) = DEFAULT_SERVICES \<and>
   list_services mk (Inr []) = DEFAULT_SERVICES \<and>
   list_packages mk' (Inl e) = DEFAULT_PACKAGES \<and>
   list_packages mk' (Inr []) = DEFAULT_PACKAGES \<and>
   (list_services mk read = DEFAULT_SERVICES \<or>
    (\<exists>docs. read = Inr docs \<and>
       map Inr (list_services mk read) = map (\<lambda>d. mk (d |` Service_model_fields)) docs)) \<and>
   (list_packages mk' read = DEFAULT_PACKAGES \<or>
    (\<exists>docs. read = Inr docs \<and>
       map Inr (list_packages mk' read) = map (\<lambda>d. mk' (d |` Package_model_fields)) docs)) \<and>
   map (\<lambda>s. (Service.code s, Service.name s, Service.price_single s)) DEFAULT_SERVICES =
     [(''OKS'', ''Oksels'', Finite 39), (''BIK-K'', ''Bikinilijn klein'', Finite 49),
      (''BIK-G'', ''Bikinilijn groot'', Finite 69), (''BEN-OND'', ''Onderbenen'', Finite 79),
      (''BEN-BOV'', ''Bovenbenen'', Finite 89), (''BEN-HELE'', ''Hele benen'', Finite 129),
      (''GEZ-LIP'', ''Bovenlip'', Finite 29), (''GEZ-KIN'', ''Kin'', Finite 29),
      (''GEZ-FULL'', ''Gehele gelaat'', Finite 79), (''ARM-OND'', ''Onderarmen'', Finite 59),
      (''ARM-HELE'', ''Hele armen'', Finite 89)] \<and>
   map (\<lambda>p. (Package.code p, Package.title p, Package.price_single p)) DEFAULT_PACKAGES =
     [(''FB-STD'', ''Full body'', Finite 279), (''FB-LUX'', ''Full body + gelaat'', Finite 329)] \<and>
   list_services example_constructor (Inr [example_doc ''65a1'']) =
     [mk_service ''Rug'' ''Rug'' ''RUG'' 25 15] \<and>
   list_services example_constructor (Inr [example_doc ''65a1'', Map.empty]) = DEFAULT_SERVICES"
proof (intro conjI)
  show "list_services mk read = DEFAULT_SERVICES \<or>
    (\<exists>docs. read = Inr docs \<and>
       map Inr (list_services mk read) = map (\<lambda>d. mk (d |` Service_model_fields)) docs)"
    by (auto simp: list_services_def dest: construct_all_map split: sum.splits)
  show "list_packages mk' read = DEFAULT_PACKAGES \<or>
    (\<exists>docs. read = Inr docs \<and>
       map Inr (list_packages mk' read) = map (\<lambda>d. mk' (d |` Package_model_fields)) docs)"
    by (auto simp: list_packages_def dest: construct_all_map split: sum.splits)
  show "list_services example_constructor (Inr [example_doc ''65a1'']) =
     [mk_service ''Rug'' ''Rug'' ''RUG'' 25 15]"
    by (simp add: list_services_def example_constructor_def example_doc_def
        Service_model_fields_def restrict_map_def)
  show "list_services example_constructor (Inr [example_doc ''65a1'', Map.empty]) =
     DEFAULT_SERVICES"
    by (simp add: list_services_def example_constructor_def example_doc_def
        Service_model_fields_def restrict_map_def)
qed (simp_all add: list_services_def list_packages_def DEFAULT_SERVICES_def DEFAULT_PACKAGES_def
    mk_service_def)

end
